theory Spec2Isabelle
  imports Main "HOL-Library.Word" "HOL-Library.Sublist"
begin

unbundle bit_operations_syntax

section \<open>The block write stream of \<open>rpc/block_write_stream.go\<close>\<close>

text \<open>
  The stream sends the bytes of one HDFS block to a datanode as packets and reads the
  acknowledgements back. The writer (\<open>Write\<close>, \<open>finish\<close>, \<open>flush\<close>, \<open>makePacket\<close>,
  \<open>writePacket\<close>) is sequential code on the stream's fields and is embedded as state
  passing on a record. The acker (\<open>ackPackets\<close>) runs on its own goroutine; it is
  embedded as a function of what the channel and the socket deliver to it.
\<close>

subsection \<open>Bytes and machine integers\<close>

type_synonym byte = "8 word"

text \<open>
  Go's \<open>int64\<close>, and \<open>int\<close> on the 64-bit targets, are integers with the wrap-around of
  two's complement written out.
\<close>

definition wrap64 :: "int \<Rightarrow> int" where
  "wrap64 x = (x + 2 ^ 63) mod 2 ^ 64 - 2 ^ 63"

definition in_int64 :: "int \<Rightarrow> bool" where
  "in_int64 x \<longleftrightarrow> - (2 ^ 63) \<le> x \<and> x < 2 ^ 63"

text \<open>Go's \<open>%\<close> truncates towards zero: the result has the sign of the dividend.\<close>

definition go_rem :: "int \<Rightarrow> int \<Rightarrow> int" where
  "go_rem a b = sgn a * (\<bar>a\<bar> mod \<bar>b\<bar>)"

definition outboundPacketSize :: nat where
  "outboundPacketSize = 65536"

definition outboundChunkSize :: nat where
  "outboundChunkSize = 512"

definition heartBeatSeqno :: int where
  "heartBeatSeqno = - 1"

text \<open>\<open>binary.BigEndian.PutUint32\<close> and \<open>PutUint16\<close>: the bytes they store, most significant first.\<close>

definition be_uint32 :: "32 word \<Rightarrow> byte list" where
  "be_uint32 v = [ucast (drop_bit 24 v), ucast (drop_bit 16 v), ucast (drop_bit 8 v), ucast v]"

definition be_uint16 :: "16 word \<Rightarrow> byte list" where
  "be_uint16 v = [ucast (drop_bit 8 v), ucast v]"

text \<open>The number that a byte string denotes when read most significant byte first.\<close>

definition be_value :: "byte list \<Rightarrow> nat" where
  "be_value bs = foldl (\<lambda>n b. n * 256 + unat b) 0 bs"

text \<open>
  \<open>PutUint32(b, v)\<close> on a slice \<open>b\<close> that starts at index \<open>pos\<close> of the array \<open>cs\<close>
  stores four bytes in place. It panics on a slice shorter than four bytes, which is the
  value \<open>None\<close>.
\<close>

definition PutUint32 :: "byte list \<Rightarrow> nat \<Rightarrow> 32 word \<Rightarrow> byte list option" where
  "PutUint32 cs pos v =
     (if pos + 4 \<le> length cs
      then Some (take pos cs @ be_uint32 v @ drop (pos + 4) cs)
      else None)"

subsection \<open>CRC32 with the IEEE polynomial\<close>

text \<open>
  \<open>crc32.Checksum(data, crc32.IEEETable)\<close> of the Go library, as its table-driven
  reference implementation computes it: the table entry of a byte is eight shift and
  conditional-xor steps with the reversed polynomial \<open>0xedb88320\<close>; the register
  starts and ends complemented.
\<close>

definition crc_poly_IEEE :: "32 word" where
  "crc_poly_IEEE = 0xedb88320"

definition crc_shift :: "32 word \<Rightarrow> 32 word" where
  "crc_shift c = (if bit c 0 then drop_bit 1 c XOR crc_poly_IEEE else drop_bit 1 c)"

definition IEEETable :: "byte \<Rightarrow> 32 word" where
  "IEEETable i = (crc_shift ^^ 8) (ucast i)"

definition crc_update :: "32 word \<Rightarrow> byte \<Rightarrow> 32 word" where
  "crc_update crc v = IEEETable ((ucast crc :: byte) XOR v) XOR drop_bit 8 crc"

definition crc32_Checksum :: "byte list \<Rightarrow> 32 word" where
  "crc32_Checksum bs = NOT (foldl crc_update (NOT 0) bs)"

subsection \<open>Errors, packets, the socket and the stream\<close>

text \<open>
  Modelled from the spec: \<open>hdfs.Status\<close>, an enumeration of the generated protobuf
  package \<open>hadoop_hdfs\<close>, of which the stream only compares values with
  \<open>Status_SUCCESS\<close>. A status is SUCCESS or another status code.
\<close>

datatype Status = Status_SUCCESS | Status_OTHER nat

text \<open>
  The error values the stream handles: \<open>io.ErrClosedPipe\<close>, \<open>ErrInvalidSeqno\<close>, the
  \<open>ackError\<close> struct, and the opaque errors of the socket and of \<open>proto.Marshal\<close>.
  \<open>Panic\<close> stands for a run-time panic (a slice or an index out of range), which is
  not an error value in Go: it ends the call.
\<close>

datatype error =
    ErrClosedPipe
  | ErrInvalidSeqno
  | AckError (pipelineIndex: nat) (ae_seqno: int) (status: Status)
  | IOError nat
  | MarshalError nat
  | Panic

text \<open>
  \<open>outboundPacket\<close>. The fields carry the prefix \<open>pkt_\<close>, since the stream has fields
  of the same names.
\<close>

record outboundPacket =
  pkt_seqno :: int
  pkt_offset :: int
  pkt_last :: bool
  pkt_checksums :: "byte list"
  pkt_data :: "byte list"

text \<open>The fields of \<open>hdfs.PacketHeaderProto\<close> that the stream sets.\<close>

record PacketHeaderProto =
  OffsetInBlock :: int
  Seqno :: int
  LastPacketInBlock :: bool
  DataLen :: int

text \<open>
  \<open>proto.Marshal\<close> is library code: it is a parameter of the functions that frame a
  packet, and gives the encoded header or an error.
\<close>

type_synonym marshal = "PacketHeaderProto \<Rightarrow> error + byte list"

text \<open>
  The write side of \<open>conn\<close>. \<open>wire\<close> holds every byte written so far. \<open>script\<close>
  gives the outcome of the coming calls of \<open>conn.Write\<close>, in order: \<open>None\<close> writes the
  whole slice, \<open>Some (n, e)\<close> writes at most \<open>n\<close> bytes of it and returns the error
  \<open>e\<close>. Once the script is used up every write succeeds.
\<close>

record socket =
  wire :: "byte list"
  script :: "(nat \<times> error) option list"

definition conn_Write :: "socket \<Rightarrow> byte list \<Rightarrow> error option \<times> socket" where
  "conn_Write c b =
     (case script c of
        [] \<Rightarrow> (None, c\<lparr>wire := wire c @ b\<rparr>)
      | None # rest \<Rightarrow> (None, c\<lparr>wire := wire c @ b, script := rest\<rparr>)
      | Some (n, e) # rest \<Rightarrow> (Some e, c\<lparr>wire := wire c @ take n b, script := rest\<rparr>))"

text \<open>
  \<open>blockWriteStream\<close>. \<open>packets\<close> is the history of the channel: every packet sent on
  it, oldest first; the acker receives them in this order. A send blocks while five
  packets wait in the channel and goes on once the acker has received one, so what the
  writer computes does not depend on the capacity. A send that waits for ever, with the
  acker waiting for an ack that never comes, is a call of the writer that does not
  return; the functions of the writer describe the calls that return.
  \<open>packetsClosed\<close> and \<open>closeChClosed\<close> say whether the two channels have been
  closed.
\<close>

record blockWriteStream =
  conn :: socket
  buf :: "byte list"
  offset :: int
  closed :: bool
  packets :: "outboundPacket list"
  packetsClosed :: bool
  seqno :: int
  ackError :: "error option"
  closeChClosed :: bool

definition newBlockWriteStream :: "socket \<Rightarrow> int \<Rightarrow> blockWriteStream" where
  "newBlockWriteStream c off =
     \<lparr>conn = c, buf = [], offset = off, closed = False, packets = [],
      packetsClosed = False, seqno = 1, ackError = None, closeChClosed = False\<rparr>"

subsection \<open>\<open>makePacket\<close>\<close>

text \<open>The length that \<open>makePacket\<close> gives the packet, from the buffer and the offset.\<close>

definition packetLength :: "blockWriteStream \<Rightarrow> nat" where
  "packetLength s =
     (let packetLength = (if length (buf s) < outboundPacketSize then length (buf s)
                          else outboundPacketSize);
          alignment = go_rem (offset s) (int outboundChunkSize)
      in if alignment > 0 \<and> int packetLength > int outboundChunkSize - alignment
         then nat (int outboundChunkSize - alignment)
         else packetLength)"

text \<open>
  \<open>int(math.Ceil(float64(packetLength) / float64(outboundChunkSize)))\<close>: the length
  is at most 65536 and the divisor is a power of two, so the quotient is exact in
  \<open>float64\<close> and the result is the ceiling of the exact quotient.
\<close>

definition numChunks :: "nat \<Rightarrow> nat" where
  "numChunks len = (len + (outboundChunkSize - 1)) div outboundChunkSize"

text \<open>
  One round of the checksum loop: the slice \<open>data[chunkOff:chunkEnd]\<close> and the store of
  its checksum at \<open>i * 4\<close>. A slice expression out of range panics (\<open>None\<close>).
\<close>

definition slice :: "'a list \<Rightarrow> nat \<Rightarrow> nat \<Rightarrow> 'a list option" where
  "slice xs lo hi = (if lo \<le> hi \<and> hi \<le> length xs then Some (take (hi - lo) (drop lo xs)) else None)"

definition checksumChunk :: "byte list \<Rightarrow> byte list \<Rightarrow> nat \<Rightarrow> byte list option" where
  "checksumChunk dat cs i =
     (let chunkOff = i * outboundChunkSize;
          chunkEnd = chunkOff + outboundChunkSize;
          chunkEnd = (if chunkEnd \<ge> length dat then length dat else chunkEnd)
      in case slice dat chunkOff chunkEnd of
           None \<Rightarrow> None
         | Some chunk \<Rightarrow> PutUint32 cs (i * 4) (crc32_Checksum chunk))"

text \<open>The loop \<open>for i := 0; i < numChunks; i++\<close>, from \<open>i\<close> on.\<close>

function fillChecksums :: "byte list \<Rightarrow> byte list \<Rightarrow> nat \<Rightarrow> nat \<Rightarrow> byte list option" where
  "fillChecksums dat cs i n =
     (if i < n
      then (case checksumChunk dat cs i of
              None \<Rightarrow> None
            | Some cs' \<Rightarrow> fillChecksums dat cs' (Suc i) n)
      else Some cs)"
  by pat_completeness auto
termination
  by (relation "measure (\<lambda>(dat, cs, i, n). n - i)") auto

declare fillChecksums.simps [simp del]

text \<open>
  \<open>makePacket\<close> takes \<open>packetLength\<close> bytes off the front of the buffer
  (\<open>io.ReadFull\<close>; the buffer holds at least that many) and checksums them chunk by
  chunk. The result is the packet and the stream with the shorter buffer; \<open>None\<close> is a
  panic in the checksum loop.
\<close>

definition makePacket :: "blockWriteStream \<Rightarrow> (outboundPacket \<times> blockWriteStream) option" where
  "makePacket s =
     (let len = packetLength s;
          n = numChunks len;
          dat = take len (buf s);
          s' = s\<lparr>buf := drop len (buf s)\<rparr>
      in case fillChecksums dat (replicate (n * 4) 0) 0 n of
           None \<Rightarrow> None
         | Some cs \<Rightarrow>
             Some (\<lparr>pkt_seqno = seqno s, pkt_offset = offset s, pkt_last = False,
                    pkt_checksums = cs, pkt_data = dat\<rparr>, s'))"

subsection \<open>\<open>writePacket\<close> and \<open>writeHeartBeatPacket\<close>\<close>

text \<open>The conversion \<open>int32(len(p.data))\<close>.\<close>

definition wrap32 :: "int \<Rightarrow> int" where
  "wrap32 x = (x + 2 ^ 31) mod 2 ^ 32 - 2 ^ 31"

text \<open>
  The six-byte prefix and the encoded header are one slice, built by \<open>PutUint32\<close>,
  \<open>PutUint16\<close> and \<open>append\<close>; \<open>uint32(totalLength)\<close> and \<open>uint16(len(infoBytes))\<close>
  keep the low bits, as \<open>of_nat\<close> into a word does.
\<close>

definition frameHeader :: "nat \<Rightarrow> byte list \<Rightarrow> byte list" where
  "frameHeader totalLength infoBytes =
     be_uint32 (of_nat totalLength) @ be_uint16 (of_nat (length infoBytes)) @ infoBytes"

definition writePacket ::
  "marshal \<Rightarrow> blockWriteStream \<Rightarrow> outboundPacket \<Rightarrow> error option \<times> blockWriteStream" where
  "writePacket m s p =
     (let headerInfo = \<lparr>OffsetInBlock = pkt_offset p, Seqno = pkt_seqno p,
                        LastPacketInBlock = pkt_last p,
                        DataLen = wrap32 (int (length (pkt_data p)))\<rparr>
      in case m headerInfo of
           Inl e \<Rightarrow> (Some e, s)
         | Inr infoBytes \<Rightarrow>
             (let totalLength = length (pkt_data p) + length (pkt_checksums p) + 4;
                  header = frameHeader totalLength infoBytes
              in case conn_Write (conn s) header of
                   (Some e, c1) \<Rightarrow> (Some e, s\<lparr>conn := c1\<rparr>)
                 | (None, c1) \<Rightarrow>
                     (case conn_Write c1 (pkt_checksums p) of
                        (Some e, c2) \<Rightarrow> (Some e, s\<lparr>conn := c2\<rparr>)
                      | (None, c2) \<Rightarrow>
                          (case conn_Write c2 (pkt_data p) of
                             (Some e, c3) \<Rightarrow> (Some e, s\<lparr>conn := c3\<rparr>)
                           | (None, c3) \<Rightarrow> (None, s\<lparr>conn := c3\<rparr>)))))"

definition writeHeartBeatPacket ::
  "marshal \<Rightarrow> blockWriteStream \<Rightarrow> error option \<times> blockWriteStream" where
  "writeHeartBeatPacket m s =
     (let headerInfo = \<lparr>OffsetInBlock = 0, Seqno = heartBeatSeqno,
                        LastPacketInBlock = False, DataLen = 0\<rparr>
      in case m headerInfo of
           Inl e \<Rightarrow> (Some e, s)
         | Inr infoBytes \<Rightarrow>
             (let header = frameHeader 4 infoBytes
              in case conn_Write (conn s) header of
                   (err, c1) \<Rightarrow> (err, s\<lparr>conn := c1\<rparr>)))"

subsection \<open>\<open>flush\<close>, \<open>Write\<close> and \<open>finish\<close>\<close>

text \<open>
  One round of the loop of \<open>flush\<close>: make the packet, send it on the channel, advance
  \<open>offset\<close> and \<open>seqno\<close>, write the packet to the socket.
\<close>

definition flushStep ::
  "marshal \<Rightarrow> blockWriteStream \<Rightarrow> error option \<times> blockWriteStream" where
  "flushStep m s =
     (case makePacket s of
        None \<Rightarrow> (Some Panic, s)
      | Some (packet, s1) \<Rightarrow>
          (let s2 = s1\<lparr>packets := packets s1 @ [packet]\<rparr>;
               s3 = s2\<lparr>offset := wrap64 (offset s2 + int (length (pkt_data packet)))\<rparr>;
               s4 = s3\<lparr>seqno := wrap64 (seqno s3 + 1)\<rparr>
           in writePacket m s4 packet))"

function flush ::
  "marshal \<Rightarrow> bool \<Rightarrow> blockWriteStream \<Rightarrow> error option \<times> blockWriteStream" where
  "flush m force s =
     (if length (buf s) > 0 \<and> (force \<or> length (buf s) \<ge> outboundPacketSize)
      then (case flushStep m s of
              (Some err, s') \<Rightarrow> (Some err, s')
            | (None, s') \<Rightarrow> flush m force s')
      else (None, s))"
  by pat_completeness auto
termination
proof (relation "measure (\<lambda>(m, force, s). length (buf s))")
  show "wf (measure (\<lambda>(m, force, s). length (buf s)))"
    by simp
next
  fix m :: marshal and force :: bool and s x :: blockWriteStream and y :: "error option"
  fix x1 :: "error option" and x2 :: blockWriteStream
  assume c: "0 < length (buf s) \<and> (force \<or> outboundPacketSize \<le> length (buf s))"
    and st: "(x1, x2) = flushStep m s" and ok: "x1 = None"
  have pos: "0 < packetLength s"
  proof -
    have "\<bar>offset s\<bar> mod 512 < 512" by simp
    then show ?thesis
      using c
      by (auto simp: packetLength_def Let_def go_rem_def outboundPacketSize_def
          outboundChunkSize_def sgn_if split: if_splits)
  qed
  have "buf x2 = drop (packetLength s) (buf s)"
    using st ok
    by (auto simp: flushStep_def makePacket_def writePacket_def conn_Write_def Let_def
        split: option.splits sum.splits list.splits prod.splits if_splits)
  then show "((m, force, x2), (m, force, s)) \<in> measure (\<lambda>(m, force, s). length (buf s))"
    using pos c by simp
qed

declare flush.simps [simp del]

definition Write ::
  "marshal \<Rightarrow> blockWriteStream \<Rightarrow> byte list \<Rightarrow> (nat \<times> error option) \<times> blockWriteStream" where
  "Write m s b =
     (if closed s then ((0, Some ErrClosedPipe), s)
      else case ackError s of
             Some e \<Rightarrow> ((0, Some e), s)
           | None \<Rightarrow>
               (let n = length b;
                    s1 = s\<lparr>buf := buf s @ b\<rparr>
                in case flush m False s1 of (err, s2) \<Rightarrow> ((n, err), s2)))"

text \<open>
  \<open>finish\<close>. The deferred function closes both channels, waits for the acker to end
  and reads \<open>ackError\<close> once more. The acker can latch its error while \<open>finish\<close>
  runs: \<open>late\<close> is the error it latches in that time, if any; an error latched before is
  kept, since the acker never assigns \<open>ackError\<close> twice. The wait itself takes as long
  as the acker takes, see \<open>ackPackets\<close>.
\<close>

definition finishBody ::
  "marshal \<Rightarrow> blockWriteStream \<Rightarrow> error option \<times> blockWriteStream" where
  "finishBody m s =
     (case ackError s of
        Some e \<Rightarrow> (Some e, s)
      | None \<Rightarrow>
          (case flush m True s of
             (Some err, s1) \<Rightarrow> (Some err, s1)
           | (None, s1) \<Rightarrow>
               (let lastPacket = \<lparr>pkt_seqno = seqno s1, pkt_offset = offset s1,
                                  pkt_last = True, pkt_checksums = [], pkt_data = []\<rparr>;
                    s2 = s1\<lparr>packets := packets s1 @ [lastPacket]\<rparr>
                in writePacket m s2 lastPacket)))"

definition finish ::
  "marshal \<Rightarrow> blockWriteStream \<Rightarrow> error option \<Rightarrow> error option \<times> blockWriteStream" where
  "finish m s late =
     (if closed s then (None, s)
      else case finishBody m (s\<lparr>closed := True\<rparr>) of
             (err, s1) \<Rightarrow>
               (let s2 = s1\<lparr>closeChClosed := True\<rparr>;
                    s3 = s2\<lparr>packetsClosed := True\<rparr>;
                    s4 = s3\<lparr>ackError := (case ackError s3 of Some e \<Rightarrow> Some e | None \<Rightarrow> late)\<rparr>
                in case ackError s4 of
                     Some e \<Rightarrow> (Some e, s4)
                   | None \<Rightarrow> (err, s4)))"

subsection \<open>Runs of the writer\<close>

text \<open>
  What happens to a stream between its creation and \<open>finish\<close>: the caller's calls of
  \<open>Write\<close>, the acker latching an error (it keeps the first), and the heartbeat
  goroutine writing a keepalive frame. \<open>run\<close> gives the bytes the calls of \<open>Write\<close>
  accepted (the first \<open>n\<close> bytes of each slice, \<open>n\<close> the count returned) and the
  stream after the last event.
\<close>

datatype event = EvWrite "byte list" | EvAckError error | EvHeartBeat

fun run :: "marshal \<Rightarrow> blockWriteStream \<Rightarrow> event list \<Rightarrow> byte list \<times> blockWriteStream" where
  "run m s [] = ([], s)"
| "run m s (EvWrite b # es) =
     (case Write m s b of
        ((n, err), s1) \<Rightarrow> (case run m s1 es of (acc, s2) \<Rightarrow> (take n b @ acc, s2)))"
| "run m s (EvAckError e # es) =
     run m (s\<lparr>ackError := (case ackError s of Some e0 \<Rightarrow> Some e0 | None \<Rightarrow> Some e)\<rparr>) es"
| "run m s (EvHeartBeat # es) = run m (snd (writeHeartBeatPacket m s)) es"


subsection \<open>\<open>ackPackets\<close>\<close>

text \<open>
  The fields of \<open>hdfs.PipelineAckProto\<close> that the acker reads (\<open>GetSeqno\<close>,
  \<open>GetReply\<close>), and the outcome of one call of \<open>readPrefixedMessage\<close>: an error or
  the decoded ack. \<open>readPrefixedMessage\<close> is defined in another file of the package;
  what it returns is an input of the acker.
\<close>

record PipelineAckProto =
  ack_seqno :: int
  reply :: "Status list"

type_synonym ackRead = "error + PipelineAckProto"

text \<open>
  What the acker has done when it has ended or can go no further: the error it latched
  in \<open>ackError\<close>, the reads the socket still holds, the number of packets it received
  from the channel, and whether \<open>ackPackets\<close> returned. It does not return when it
  waits for ever: for an ack that never comes, or for a packet on a channel that is never
  closed.
\<close>

record ackerState =
  latched :: "error option"
  unread :: "ackRead list"
  received :: nat
  returned :: bool

text \<open>The loop over \<open>ack.GetReply()\<close>: the first status that is not SUCCESS, with its index.\<close>

fun firstFailure :: "nat \<Rightarrow> Status list \<Rightarrow> (nat \<times> Status) option" where
  "firstFailure i [] = None"
| "firstFailure i (st # sts) =
     (if st \<noteq> Status_SUCCESS then Some (i, st) else firstFailure (Suc i) sts)"

text \<open>
  The inner loop together with the comparison that follows it, for the packet with
  seqno \<open>pseq\<close>: read acks until one is not a heartbeat.
\<close>

datatype ackOutcome = Acked | Latched error | Blocked

fun readAcks :: "int \<Rightarrow> ackRead list \<Rightarrow> ackOutcome \<times> ackRead list" where
  "readAcks pseq [] = (Blocked, [])"
| "readAcks pseq (Inl err # rs) = (Latched err, rs)"
| "readAcks pseq (Inr ack # rs) =
     (let seqno = ack_seqno ack
      in case firstFailure 0 (reply ack) of
           Some (i, st) \<Rightarrow> (Latched (AckError i seqno st), rs)
         | None \<Rightarrow>
             if seqno \<noteq> heartBeatSeqno
             then (if seqno \<noteq> pseq then (Latched ErrInvalidSeqno, rs) else (Acked, rs))
             else readAcks pseq rs)"

text \<open>
  The loop \<open>for _ = range s.packets\<close> after an error: it receives what is left on the
  channel and ends when the channel is closed. It assigns nothing else.
\<close>

definition drainPackets :: "ackerState \<Rightarrow> outboundPacket list \<Rightarrow> bool \<Rightarrow> ackerState" where
  "drainPackets st ps chClosed = st\<lparr>received := received st + length ps, returned := chClosed\<rparr>"

text \<open>
  The loop \<open>L\<close>. \<open>ps\<close> are the packets the writer sends on the channel from now on,
  \<open>chClosed\<close> says whether it closes the channel after them, \<open>rs\<close> are the reads the
  socket delivers, \<open>k\<close> counts the packets received so far.
\<close>

fun ackLoop :: "outboundPacket list \<Rightarrow> bool \<Rightarrow> ackRead list \<Rightarrow> nat \<Rightarrow> ackerState" where
  "ackLoop [] chClosed rs k = \<lparr>latched = None, unread = rs, received = k, returned = chClosed\<rparr>"
| "ackLoop (p # ps) chClosed rs k =
     (case readAcks (pkt_seqno p) rs of
        (Blocked, rs') \<Rightarrow> \<lparr>latched = None, unread = rs', received = Suc k, returned = False\<rparr>
      | (Latched e, rs') \<Rightarrow>
          drainPackets \<lparr>latched = Some e, unread = rs', received = Suc k, returned = False\<rparr>
            ps chClosed
      | (Acked, rs') \<Rightarrow> ackLoop ps chClosed rs' (Suc k))"

definition ackPackets :: "outboundPacket list \<Rightarrow> bool \<Rightarrow> ackRead list \<Rightarrow> ackerState" where
  "ackPackets ps chClosed rs = ackLoop ps chClosed rs 0"

subsection \<open>The packetisation rule in the words of the specification\<close>

text \<open>
  The tentative length is the smaller of the buffered bytes and 65536; with
  \<open>alignment = offset mod 512\<close>, the length is capped to \<open>512 - alignment\<close> when the
  alignment is positive and the tentative length is larger than that.
\<close>

definition spec_packet_length :: "nat \<Rightarrow> int \<Rightarrow> nat" where
  "spec_packet_length buffered off =
     (let tentative = min buffered 65536;
          alignment = off mod 512
      in if alignment > 0 \<and> int tentative > 512 - alignment
         then nat (512 - alignment)
         else tentative)"

text \<open>
  The lengths of the packets of one drain: while bytes are buffered and the flush is
  forced or a packet of full size can be formed, a packet of that length is formed.
\<close>

function spec_drain :: "bool \<Rightarrow> nat \<Rightarrow> int \<Rightarrow> nat list" where
  "spec_drain force buffered off =
     (if buffered > 0 \<and> (force \<or> buffered \<ge> 65536)
      then spec_packet_length buffered off #
           spec_drain force (buffered - spec_packet_length buffered off)
             (off + int (spec_packet_length buffered off))
      else [])"
  by pat_completeness auto
termination
proof (relation "measure (\<lambda>(force, buffered, off). buffered)")
  show "wf (measure (\<lambda>(force, buffered, off). buffered))"
    by simp
next
  fix force :: bool and buffered :: nat and off :: int
  assume c: "0 < buffered \<and> (force \<or> 65536 \<le> buffered)"
  have "off mod 512 < 512" by simp
  then have "0 < spec_packet_length buffered off"
    using c by (auto simp: spec_packet_length_def Let_def)
  then show "((force, buffered - spec_packet_length buffered off,
               off + int (spec_packet_length buffered off)), (force, buffered, off))
             \<in> measure (\<lambda>(force, buffered, off). buffered)"
    using c by simp
qed

declare spec_drain.simps [simp del]

text \<open>The bytes of chunk \<open>i\<close> of a packet's data: \<open>data[512 * i .. min (512 * (i + 1)) L)\<close>.\<close>

definition chunk :: "byte list \<Rightarrow> nat \<Rightarrow> byte list" where
  "chunk dat i = take (min (512 * (i + 1)) (length dat) - 512 * i) (drop (512 * i) dat)"

text \<open>
  A packet's checksum array is right when it has four bytes for each chunk of the data
  and the four bytes of chunk \<open>i\<close> are the big-endian CRC32 of that chunk.
\<close>

definition checksums_ok :: "outboundPacket \<Rightarrow> bool" where
  "checksums_ok p \<longleftrightarrow>
     length (pkt_checksums p) = 4 * ((length (pkt_data p) + 511) div 512) \<and>
     (\<forall>i < (length (pkt_data p) + 511) div 512.
        take 4 (drop (4 * i) (pkt_checksums p)) =
        be_uint32 (crc32_Checksum (chunk (pkt_data p) i)))"

subsection \<open>The steps of the writer\<close>

text \<open>
  Every change that \<open>Write\<close>, \<open>flush\<close>, the acker and the heartbeat make to a
  stream, and the first assignment of \<open>finish\<close>, is one of these steps; the first
  component is the sequence of bytes that \<open>Write\<close> has accepted so far. \<open>Write\<close> appends to the buffer
  of a stream that is not closed and has no latched error; a round of \<open>flush\<close> runs on
  a buffer that is not empty, forced (only \<open>finish\<close> forces, after it has set
  \<open>closed\<close>) or on 65536 bytes and more; the acker assigns \<open>ackError\<close>; writes
  change the socket; \<open>finish\<close> sets \<open>closed\<close>.
\<close>

inductive writer_step ::
  "marshal \<Rightarrow> byte list \<times> blockWriteStream \<Rightarrow> byte list \<times> blockWriteStream \<Rightarrow> bool"
  for m :: marshal where
  accept: "\<not> closed s \<Longrightarrow> ackError s = None \<Longrightarrow>
           writer_step m (a, s) (a @ b, s\<lparr>buf := buf s @ b\<rparr>)"
| carve: "length (buf s) > 0 \<Longrightarrow> closed s \<or> length (buf s) \<ge> outboundPacketSize \<Longrightarrow>
          flushStep m s = (r, s') \<Longrightarrow> writer_step m (a, s) (a, s')"
| latch: "writer_step m (a, s) (a, s\<lparr>ackError := Some e\<rparr>)"
| sock: "writer_step m (a, s) (a, s\<lparr>conn := c\<rparr>)"
| close: "writer_step m (a, s) (a, s\<lparr>closed := True\<rparr>)"

subsection \<open>What the socket holds\<close>

text \<open>
  The header that \<open>writePacket\<close> builds for a packet, and the bytes that the three
  writes of \<open>writePacket\<close> put on the socket when the header is encoded and every
  write succeeds: the frame of the packet.
\<close>

definition packetHeader :: "outboundPacket \<Rightarrow> PacketHeaderProto" where
  "packetHeader p =
     \<lparr>OffsetInBlock = pkt_offset p, Seqno = pkt_seqno p, LastPacketInBlock = pkt_last p,
      DataLen = wrap32 (int (length (pkt_data p)))\<rparr>"

definition packetFrame :: "marshal \<Rightarrow> outboundPacket \<Rightarrow> byte list" where
  "packetFrame m p =
     (case m (packetHeader p) of
        Inl e \<Rightarrow> []
      | Inr infoBytes \<Rightarrow>
          frameHeader (length (pkt_data p) + length (pkt_checksums p) + 4) infoBytes @
          pkt_checksums p @ pkt_data p)"


text \<open>
  What has been written to a socket, piece by piece: the complete frame of a packet, or
  the bytes of one call of \<open>writeHeartBeatPacket\<close>, which are the heartbeat frame or,
  when the write fails, a part of it from the start. \<open>sentPackets\<close> are the packets
  whose frames the socket holds, in order.
\<close>

datatype wireItem = PacketFrame outboundPacket | HeartBeatBytes "byte list"



fun sentPackets :: "wireItem list \<Rightarrow> outboundPacket list" where
  "sentPackets [] = []"
| "sentPackets (PacketFrame p # items) = p # sentPackets items"
| "sentPackets (HeartBeatBytes b # items) = sentPackets items"


subsection \<open>A stream for the examples\<close>

text \<open>
  The examples run the stream on a socket that has nothing written to it and takes
  every write, with an encoder in the place of \<open>proto.Marshal\<close> that gives every
  header the empty encoding. The stream appends to a block at offset 1022, ten bytes
  into the last two of a chunk: the caller writes five bytes and calls \<open>finish\<close>.
  \<open>exampleWritten\<close> is the stream after the call of \<open>Write\<close>, \<open>exampleFinished\<close>
  the stream after \<open>finish\<close>.
\<close>

definition exampleConn :: socket where
  "exampleConn = \<lparr>wire = [], script = []\<rparr>"

definition exampleMarshal :: marshal where
  "exampleMarshal h = Inr []"

definition exampleWritten :: blockWriteStream where
  "exampleWritten =
     \<lparr>conn = exampleConn, buf = [1, 2, 3, 4, 5], offset = 1022, closed = False,
      packets = [], packetsClosed = False, seqno = 1, ackError = None,
      closeChClosed = False\<rparr>"

definition examplePacket1 :: outboundPacket where
  "examplePacket1 =
     \<lparr>pkt_seqno = 1, pkt_offset = 1022, pkt_last = False,
      pkt_checksums = be_uint32 (crc32_Checksum [1, 2]), pkt_data = [1, 2]\<rparr>"

definition examplePacket2 :: outboundPacket where
  "examplePacket2 =
     \<lparr>pkt_seqno = 2, pkt_offset = 1024, pkt_last = False,
      pkt_checksums = be_uint32 (crc32_Checksum [3, 4, 5]), pkt_data = [3, 4, 5]\<rparr>"

definition examplePacket3 :: outboundPacket where
  "examplePacket3 =
     \<lparr>pkt_seqno = 3, pkt_offset = 1027, pkt_last = True,
      pkt_checksums = [], pkt_data = []\<rparr>"

definition exampleWire :: "byte list" where
  "exampleWire =
     frameHeader 10 [] @ be_uint32 (crc32_Checksum [1, 2]) @ [1, 2] @
     frameHeader 11 [] @ be_uint32 (crc32_Checksum [3, 4, 5]) @ [3, 4, 5] @
     frameHeader 4 []"

definition exampleFinished :: blockWriteStream where
  "exampleFinished =
     \<lparr>conn = \<lparr>wire = exampleWire, script = []\<rparr>, buf = [], offset = 1027, closed = True,
      packets = [examplePacket1, examplePacket2, examplePacket3], packetsClosed = True,
      seqno = 3, ackError = None, closeChClosed = True\<rparr>"

text \<open>
  The same stream on a socket whose first write fails without writing a byte:
  \<open>exampleBroken\<close> is that stream after \<open>finish\<close>.
\<close>

definition brokenConn :: socket where
  "brokenConn = \<lparr>wire = [], script = [Some (0, IOError 1)]\<rparr>"


text \<open>
  A stream on that socket with 65535 bytes in its buffer: two bytes more and a call of
  \<open>Write\<close> forms a packet, whose write fails.
\<close>

definition exampleFull :: blockWriteStream where
  "exampleFull =
     \<lparr>conn = brokenConn, buf = replicate 65535 0, offset = 0, closed = False,
      packets = [], packetsClosed = False, seqno = 1, ackError = None,
      closeChClosed = False\<rparr>"


definition lostPacket2 :: outboundPacket where
  "lostPacket2 =
     \<lparr>pkt_seqno = 2, pkt_offset = 65536, pkt_last = False,
      pkt_checksums = be_uint32 (crc32_Checksum [8]), pkt_data = [8]\<rparr>"

definition lostPacket3 :: outboundPacket where
  "lostPacket3 =
     \<lparr>pkt_seqno = 3, pkt_offset = 65537, pkt_last = True,
      pkt_checksums = [], pkt_data = []\<rparr>"



section \<open>Properties\<close>

subsection \<open>The check value of CRC32\<close>

text \<open>
  The checksum of the nine characters \<open>123456789\<close> is \<open>0xCBF43926\<close>, the value
  that identifies the IEEE variant of CRC32.
\<close>

lemma crc_check_step1: "crc_update (NOT 0) 0x31 = 0x7C231048"
  by code_simp

lemma crc_check_step2: "crc_update (0x7C231048) 0x32 = 0xB0ACBB32"
  by code_simp

lemma crc_check_step3: "crc_update (0xB0ACBB32) 0x33 = 0x77B79C2D"
  by code_simp

lemma crc_check_step4: "crc_update (0x77B79C2D) 0x34 = 0x641C1F5C"
  by code_simp

lemma crc_check_step5: "crc_update (0x641C1F5C) 0x35 = 0x340AC5E3"
  by code_simp

lemma crc_check_step6: "crc_update (0x340AC5E3) 0x36 = 0xF68D2C9E"
  by code_simp

lemma crc_check_step7: "crc_update (0xF68D2C9E) 0x37 = 0xAFFC9660"
  by code_simp

lemma crc_check_step8: "crc_update (0xAFFC9660) 0x38 = 0x651F2550"
  by code_simp

lemma crc_check_step9: "crc_update (0x651F2550) 0x39 = 0x340BC6D9"
  by code_simp

lemma crc_check_final: "NOT (0x340BC6D9 :: 32 word) = 0xCBF43926"
  by simp

lemma crc32_check_value:
  "crc32_Checksum [0x31, 0x32, 0x33, 0x34, 0x35, 0x36, 0x37, 0x38, 0x39] = 0xCBF43926"
  by (simp only: crc32_Checksum_def foldl.simps crc_check_step1 crc_check_step2 crc_check_step3 crc_check_step4 crc_check_step5 crc_check_step6 crc_check_step7 crc_check_step8 crc_check_step9 crc_check_final)

subsection \<open>The checksum loop\<close>

lemma length_be_uint32 [simp]: "length (be_uint32 v) = 4"
  by (simp add: be_uint32_def)

lemma put_at_length:
  "4 * i + 4 \<le> length cs \<Longrightarrow> length v = 4 \<Longrightarrow> length (take (4 * i) cs @ v @ drop (4 * i + 4) cs) = length cs"
  by simp

lemma put_at_same:
  "4 * i + 4 \<le> length cs \<Longrightarrow> length v = 4 \<Longrightarrow>
   take 4 (drop (4 * i) (take (4 * i) cs @ v @ drop (4 * i + 4) cs)) = v"
  by simp

lemma put_at_other:
  assumes "4 * i + 4 \<le> length cs" "length v = 4" "j \<noteq> i"
  shows "take 4 (drop (4 * j) (take (4 * i) cs @ v @ drop (4 * i + 4) cs)) = take 4 (drop (4 * j) cs)"
proof (cases "j < i")
  case True
  then have le: "4 * j + 4 \<le> 4 * i" by simp
  have "take 4 (drop (4 * j) (take (4 * i) cs @ v @ drop (4 * i + 4) cs))
        = take 4 (drop (4 * j) (take (4 * i) cs))"
    using le assms(1) by simp
  also have "\<dots> = take 4 (drop (4 * j) cs)"
    using le by (simp add: drop_take min_def)
  finally show ?thesis .
next
  case False
  with assms(3) have gt: "4 * i + 4 \<le> 4 * j" by simp
  then obtain d where d: "4 * j = 4 * i + 4 + d"
    using le_Suc_ex by blast
  show ?thesis
    using assms(1,2) by (simp add: d, simp add: add.commute)
qed

lemma numChunks_bound: "i < numChunks len \<longleftrightarrow> 512 * i < len"
  unfolding numChunks_def outboundChunkSize_def by auto

lemma checksumChunk_Some:
  assumes "i < numChunks (length dat)" "4 * i + 4 \<le> length cs"
  shows "checksumChunk dat cs i =
         Some (take (4 * i) cs @ be_uint32 (crc32_Checksum (chunk dat i)) @ drop (4 * i + 4) cs)"
proof -
  from assms(1) have lt: "512 * i < length dat"
    by (simp add: numChunks_bound)
  then show ?thesis
    using assms(2)
    by (auto simp: checksumChunk_def Let_def slice_def PutUint32_def chunk_def
        outboundChunkSize_def min_def mult.commute add.commute)
qed

lemma fillChecksums_inv:
  assumes "length cs = 4 * n" "i \<le> n" "n = numChunks (length dat)"
  shows "\<exists>cs'. fillChecksums dat cs i n = Some cs' \<and> length cs' = 4 * n \<and>
           (\<forall>j<i. take 4 (drop (4 * j) cs') = take 4 (drop (4 * j) cs)) \<and>
           (\<forall>j. i \<le> j \<and> j < n \<longrightarrow>
              take 4 (drop (4 * j) cs') = be_uint32 (crc32_Checksum (chunk dat j)))"
  using assms
proof (induction "n - i" arbitrary: i cs)
  case 0
  then have "i = n" by simp
  then show ?case
    using "0.prems"(1) by (auto simp: fillChecksums.simps)
next
  case (Suc d)
  then have lt: "i < n" by simp
  let ?v = "be_uint32 (crc32_Checksum (chunk dat i))"
  let ?cs1 = "take (4 * i) cs @ ?v @ drop (4 * i + 4) cs"
  have room: "4 * i + 4 \<le> length cs"
    using lt Suc.prems(1) by simp
  have step: "checksumChunk dat cs i = Some ?cs1"
    using lt Suc.prems(3) room by (simp add: checksumChunk_Some)
  have len1: "length ?cs1 = 4 * n"
    using room Suc.prems(1) by simp
  have "d = n - Suc i" using Suc.hyps(2) by simp
  from Suc.hyps(1)[OF this len1 _ Suc.prems(3)] lt
  obtain cs' where r: "fillChecksums dat ?cs1 (Suc i) n = Some cs'" "length cs' = 4 * n"
    and old: "\<forall>j<Suc i. take 4 (drop (4 * j) cs') = take 4 (drop (4 * j) ?cs1)"
    and new: "\<forall>j. Suc i \<le> j \<and> j < n \<longrightarrow>
              take 4 (drop (4 * j) cs') = be_uint32 (crc32_Checksum (chunk dat j))"
    by auto
  have eq: "fillChecksums dat cs i n = Some cs'"
    using lt step r(1) by (subst fillChecksums.simps) simp
  have a: "\<forall>j<i. take 4 (drop (4 * j) cs') = take 4 (drop (4 * j) cs)"
  proof (intro allI impI)
    fix j assume "j < i"
    then have "take 4 (drop (4 * j) cs') = take 4 (drop (4 * j) ?cs1)"
      using old by simp
    also have "\<dots> = take 4 (drop (4 * j) cs)"
      using \<open>j < i\<close> room by (intro put_at_other) simp_all
    finally show "take 4 (drop (4 * j) cs') = take 4 (drop (4 * j) cs)" .
  qed
  have b: "\<forall>j. i \<le> j \<and> j < n \<longrightarrow>
              take 4 (drop (4 * j) cs') = be_uint32 (crc32_Checksum (chunk dat j))"
  proof (intro allI impI)
    fix j assume j: "i \<le> j \<and> j < n"
    show "take 4 (drop (4 * j) cs') = be_uint32 (crc32_Checksum (chunk dat j))"
    proof (cases "j = i")
      case True
      have "take 4 (drop (4 * i) cs') = take 4 (drop (4 * i) ?cs1)"
        using old by simp
      also have "\<dots> = ?v"
        using room by (intro put_at_same) simp_all
      finally show ?thesis using True by simp
    next
      case False
      with j new show ?thesis by simp
    qed
  qed
  show ?case using eq r(2) a b by blast
qed

subsection \<open>One packet and one round of \<open>flush\<close>\<close>

lemma packetLength_le: "packetLength s \<le> length (buf s)"
  by (auto simp: packetLength_def Let_def outboundPacketSize_def outboundChunkSize_def)

lemma min_packetLength [simp]: "min (length (buf s)) (packetLength s) = packetLength s"
  using packetLength_le[of s] by simp

lemma packetLength_le_size: "packetLength s \<le> 65536"
  by (auto simp: packetLength_def Let_def outboundPacketSize_def outboundChunkSize_def)

lemma go_rem_bounds: "\<bar>go_rem a 512\<bar> < 512"
proof -
  have "\<bar>a\<bar> mod 512 < 512" "0 \<le> \<bar>a\<bar> mod 512" by simp_all
  then show ?thesis by (auto simp: go_rem_def sgn_if)
qed

lemma packetLength_pos: "buf s \<noteq> [] \<Longrightarrow> 0 < packetLength s"
  using go_rem_bounds[of "offset s"]
  by (auto simp: packetLength_def Let_def outboundPacketSize_def outboundChunkSize_def)

lemma go_rem_nonneg: "0 \<le> a \<Longrightarrow> go_rem a 512 = a mod 512"
  by (simp add: go_rem_def sgn_if)

lemma packetLength_spec:
  "0 \<le> offset s \<Longrightarrow> packetLength s = spec_packet_length (length (buf s)) (offset s)"
  by (auto simp: packetLength_def spec_packet_length_def Let_def go_rem_nonneg
      outboundPacketSize_def outboundChunkSize_def min_def)

lemma numChunks_eq: "numChunks n = (n + 511) div 512"
  by (simp add: numChunks_def outboundChunkSize_def)

lemma makePacket_char:
  "\<exists>cs. makePacket s =
     Some (\<lparr>pkt_seqno = seqno s, pkt_offset = offset s, pkt_last = False,
            pkt_checksums = cs, pkt_data = take (packetLength s) (buf s)\<rparr>,
           s\<lparr>buf := drop (packetLength s) (buf s)\<rparr>) \<and>
     checksums_ok \<lparr>pkt_seqno = seqno s, pkt_offset = offset s, pkt_last = False,
            pkt_checksums = cs, pkt_data = take (packetLength s) (buf s)\<rparr>"
proof -
  let ?dat = "take (packetLength s) (buf s)"
  let ?n = "numChunks (packetLength s)"
  have len: "length ?dat = packetLength s"
    using packetLength_le[of s] by simp
  have "\<exists>cs'. fillChecksums ?dat (replicate (?n * 4) 0) 0 ?n = Some cs' \<and> length cs' = 4 * ?n \<and>
           (\<forall>j<0. take 4 (drop (4 * j) cs') = take 4 (drop (4 * j) (replicate (?n * 4) 0))) \<and>
           (\<forall>j. 0 \<le> j \<and> j < ?n \<longrightarrow>
              take 4 (drop (4 * j) cs') = be_uint32 (crc32_Checksum (chunk ?dat j)))"
    by (rule fillChecksums_inv) (simp_all add: len)
  then obtain cs where cs: "fillChecksums ?dat (replicate (?n * 4) 0) 0 ?n = Some cs"
    "length cs = 4 * ?n"
    "\<forall>j<?n. take 4 (drop (4 * j) cs) = be_uint32 (crc32_Checksum (chunk ?dat j))"
    by auto
  have "makePacket s =
     Some (\<lparr>pkt_seqno = seqno s, pkt_offset = offset s, pkt_last = False,
            pkt_checksums = cs, pkt_data = ?dat\<rparr>,
           s\<lparr>buf := drop (packetLength s) (buf s)\<rparr>)"
    using cs(1) by (simp add: makePacket_def Let_def)
  moreover have "checksums_ok \<lparr>pkt_seqno = seqno s, pkt_offset = offset s, pkt_last = False,
            pkt_checksums = cs, pkt_data = ?dat\<rparr>"
    using cs(2,3) by (simp add: checksums_ok_def len numChunks_eq)
  ultimately show ?thesis by blast
qed

lemma makePacket_total: "makePacket s \<noteq> None"
  using makePacket_char[of s] by auto

lemma writePacket_conn: "\<exists>c. snd (writePacket m s p) = s\<lparr>conn := c\<rparr>"
proof (cases "m \<lparr>OffsetInBlock = pkt_offset p, Seqno = pkt_seqno p,
                 LastPacketInBlock = pkt_last p,
                 DataLen = wrap32 (int (length (pkt_data p)))\<rparr>")
  case (Inl e)
  then have "snd (writePacket m s p) = s\<lparr>conn := conn s\<rparr>"
    by (simp add: writePacket_def)
  then show ?thesis by blast
next
  case (Inr infoBytes)
  then show ?thesis
    by (auto simp: writePacket_def Let_def split: prod.splits option.splits)
qed


lemma flushStep_char:
  assumes "flushStep m s = (r, s')"
  shows "\<exists>cs c. s' = s\<lparr>conn := c, buf := drop (packetLength s) (buf s),
                 offset := wrap64 (offset s + int (packetLength s)),
                 packets := packets s @ [\<lparr>pkt_seqno = seqno s, pkt_offset = offset s, pkt_last = False,
                     pkt_checksums = cs, pkt_data = take (packetLength s) (buf s)\<rparr>],
                 seqno := wrap64 (seqno s + 1)\<rparr> \<and>
          checksums_ok \<lparr>pkt_seqno = seqno s, pkt_offset = offset s, pkt_last = False,
                     pkt_checksums = cs, pkt_data = take (packetLength s) (buf s)\<rparr>"
proof -
  obtain cs where mk: "makePacket s =
     Some (\<lparr>pkt_seqno = seqno s, pkt_offset = offset s, pkt_last = False,
            pkt_checksums = cs, pkt_data = take (packetLength s) (buf s)\<rparr>,
           s\<lparr>buf := drop (packetLength s) (buf s)\<rparr>)"
    and ok: "checksums_ok \<lparr>pkt_seqno = seqno s, pkt_offset = offset s, pkt_last = False,
            pkt_checksums = cs, pkt_data = take (packetLength s) (buf s)\<rparr>"
    using makePacket_char[of s] by blast
  let ?p = "\<lparr>pkt_seqno = seqno s, pkt_offset = offset s, pkt_last = False,
            pkt_checksums = cs, pkt_data = take (packetLength s) (buf s)\<rparr>"
  let ?s4 = "s\<lparr>buf := drop (packetLength s) (buf s), packets := packets s @ [?p],
              offset := wrap64 (offset s + int (packetLength s)),
              seqno := wrap64 (seqno s + 1)\<rparr>"
  have len: "length (take (packetLength s) (buf s)) = packetLength s"
    using packetLength_le[of s] by simp
  have fs: "flushStep m s = writePacket m ?s4 ?p"
    by (simp add: flushStep_def mk Let_def len)
  have "s' = snd (flushStep m s)"
    using assms by simp
  then have "s' = snd (writePacket m ?s4 ?p)"
    by (simp only: fs)
  then obtain c where "s' = ?s4\<lparr>conn := c\<rparr>"
    using writePacket_conn[of m ?s4 ?p] by auto
  then have "s' = s\<lparr>conn := c, buf := drop (packetLength s) (buf s),
                 offset := wrap64 (offset s + int (packetLength s)),
                 packets := packets s @ [?p],
                 seqno := wrap64 (seqno s + 1)\<rparr>"
    by simp
  with ok show ?thesis by blast
qed

subsection \<open>\<open>flush\<close>, \<open>Write\<close> and runs as sequences of steps\<close>

lemma flushStep_closed: "flushStep m s = (r, s') \<Longrightarrow> closed s' = closed s"
  using flushStep_char[of m s r s'] by auto

lemma flushStep_buf: "flushStep m s = (r, s') \<Longrightarrow> buf s' = drop (packetLength s) (buf s)"
  using flushStep_char[of m s r s'] by auto

lemma flush_steps:
  "flush m force s = (r, s') \<Longrightarrow> (force \<longrightarrow> closed s) \<Longrightarrow>
   (writer_step m)\<^sup>*\<^sup>* (a, s) (a, s')"
proof (induction m force s rule: flush.induct)
  case (1 m force s)
  show ?case
  proof (cases "length (buf s) > 0 \<and> (force \<or> length (buf s) \<ge> outboundPacketSize)")
    case False
    then have "s' = s"
      using "1.prems"(1) by (auto simp: flush.simps)
    then show ?thesis by simp
  next
    case True
    obtain r1 s1 where st: "flushStep m s = (r1, s1)"
      by (cases "flushStep m s")
    have one: "writer_step m (a, s) (a, s1)"
      using True "1.prems"(2) st by (intro writer_step.carve[where r = r1]) auto
    show ?thesis
    proof (cases r1)
      case None
      then have "flush m force s1 = (r, s')"
        using "1.prems"(1) True st by (subst (asm) flush.simps) simp
      moreover have "force \<longrightarrow> closed s1"
        using "1.prems"(2) flushStep_closed[OF st] by simp
      ultimately have "(writer_step m)\<^sup>*\<^sup>* (a, s1) (a, s')"
        using "1.IH"[OF True st[symmetric] None] by simp
      with one show ?thesis by simp
    next
      case (Some e)
      then have "s' = s1"
        using "1.prems"(1) True st by (subst (asm) flush.simps) simp
      with one show ?thesis by simp
    qed
  qed
qed

lemma flush_done:
  "flush m force s = (None, s') \<Longrightarrow>
   \<not> (length (buf s') > 0 \<and> (force \<or> length (buf s') \<ge> outboundPacketSize))"
proof (induction m force s rule: flush.induct)
  case (1 m force s)
  show ?case
  proof (cases "length (buf s) > 0 \<and> (force \<or> length (buf s) \<ge> outboundPacketSize)")
    case False
    then have "s' = s"
      using "1.prems"(1) by (auto simp: flush.simps)
    with False show ?thesis by simp
  next
    case True
    obtain r1 s1 where st: "flushStep m s = (r1, s1)"
      by (cases "flushStep m s")
    show ?thesis
    proof (cases r1)
      case None
      then have "flush m force s1 = (None, s')"
        using "1.prems"(1) True st by (subst (asm) flush.simps) simp
      then show ?thesis
        using "1.IH"[OF True st[symmetric] None] by simp
    next
      case (Some e)
      then show ?thesis
        using "1.prems"(1) True st by (subst (asm) flush.simps) simp
    qed
  qed
qed

lemma Write_steps:
  assumes "Write m s b = ((n, e), s')"
  shows "(writer_step m)\<^sup>*\<^sup>* (a, s) (a @ take n b, s')"
proof (cases "closed s \<or> ackError s \<noteq> None")
  case True
  then have "n = 0 \<and> s' = s"
    using assms by (auto simp: Write_def split: if_splits option.splits)
  then show ?thesis by simp
next
  case False
  obtain r1 s1 where fl: "flush m False (s\<lparr>buf := buf s @ b\<rparr>) = (r1, s1)"
    by (cases "flush m False (s\<lparr>buf := buf s @ b\<rparr>)")
  have res: "n = length b \<and> s' = s1"
    using assms False fl by (auto simp: Write_def Let_def)
  have "writer_step m (a, s) (a @ b, s\<lparr>buf := buf s @ b\<rparr>)"
    using False by (intro writer_step.accept) auto
  moreover have "(writer_step m)\<^sup>*\<^sup>* (a @ b, s\<lparr>buf := buf s @ b\<rparr>) (a @ b, s1)"
    using fl by (rule flush_steps) simp
  ultimately show ?thesis
    using res by simp
qed

lemma writeHeartBeatPacket_conn: "\<exists>c. snd (writeHeartBeatPacket m s) = s\<lparr>conn := c\<rparr>"
proof (cases "m \<lparr>OffsetInBlock = 0, Seqno = heartBeatSeqno,
                 LastPacketInBlock = False, DataLen = 0\<rparr>")
  case (Inl e)
  then have "snd (writeHeartBeatPacket m s) = s\<lparr>conn := conn s\<rparr>"
    by (simp add: writeHeartBeatPacket_def)
  then show ?thesis by blast
next
  case (Inr infoBytes)
  then show ?thesis
    by (auto simp: writeHeartBeatPacket_def Let_def split: prod.splits)
qed

lemma run_steps:
  "run m s es = (acc, s') \<Longrightarrow> (writer_step m)\<^sup>*\<^sup>* (a, s) (a @ acc, s')"
proof (induction es arbitrary: a s acc s')
  case Nil
  then show ?case by simp
next
  case (Cons ev es)
  show ?case
  proof (cases ev)
    case (EvWrite b)
    obtain n e s1 where w: "Write m s b = ((n, e), s1)"
      by (cases "Write m s b") auto
    obtain acc1 s2 where r: "run m s1 es = (acc1, s2)"
      by (cases "run m s1 es")
    have res: "acc = take n b @ acc1 \<and> s' = s2"
      using Cons.prems EvWrite w r by simp
    have "(writer_step m)\<^sup>*\<^sup>* (a, s) (a @ take n b, s1)"
      using w by (rule Write_steps)
    moreover have "(writer_step m)\<^sup>*\<^sup>* (a @ take n b, s1) ((a @ take n b) @ acc1, s2)"
      using r by (rule Cons.IH)
    ultimately show ?thesis
      using res by simp
  next
    case (EvAckError e)
    let ?s1 = "s\<lparr>ackError := (case ackError s of Some e0 \<Rightarrow> Some e0 | None \<Rightarrow> Some e)\<rparr>"
    have "run m ?s1 es = (acc, s')"
      using Cons.prems EvAckError by simp
    then have rest: "(writer_step m)\<^sup>*\<^sup>* (a, ?s1) (a @ acc, s')"
      by (rule Cons.IH)
    have "(writer_step m)\<^sup>*\<^sup>* (a, s) (a, ?s1)"
    proof (cases "ackError s")
      case None
      have "writer_step m (a, s) (a, s\<lparr>ackError := Some e\<rparr>)"
        by (rule writer_step.latch)
      then show ?thesis using None by simp
    next
      case (Some e0)
      then have "?s1 = s" by simp
      then show ?thesis by simp
    qed
    with rest show ?thesis by simp
  next
    case EvHeartBeat
    obtain c where c: "snd (writeHeartBeatPacket m s) = s\<lparr>conn := c\<rparr>"
      using writeHeartBeatPacket_conn by blast
    have "run m (s\<lparr>conn := c\<rparr>) es = (acc, s')"
      using Cons.prems EvHeartBeat c by simp
    then have "(writer_step m)\<^sup>*\<^sup>* (a, s\<lparr>conn := c\<rparr>) (a @ acc, s')"
      by (rule Cons.IH)
    moreover have "writer_step m (a, s) (a, s\<lparr>conn := c\<rparr>)"
      by (rule writer_step.sock)
    ultimately show ?thesis by simp
  qed
qed

subsection \<open>What the steps preserve\<close>

lemma wrap64_id: "in_int64 x \<Longrightarrow> wrap64 x = x"
  by (simp add: wrap64_def in_int64_def)

lemma wrap64_add: "wrap64 (wrap64 x + y) = wrap64 (x + y)"
proof -
  have "(wrap64 x + y + 2 ^ 63) mod 2 ^ 64 = ((x + 2 ^ 63) mod 2 ^ 64 + y) mod 2 ^ 64"
    by (simp add: wrap64_def algebra_simps)
  also have "\<dots> = (x + 2 ^ 63 + y) mod 2 ^ 64"
    by (simp add: mod_add_left_eq)
  finally show ?thesis
    by (simp add: wrap64_def algebra_simps)
qed

lemma writer_steps_data:
  "(writer_step m)\<^sup>*\<^sup>* (a0, s0) (a, s) \<Longrightarrow>
   concat (map pkt_data (packets s0)) @ buf s0 = a0 \<Longrightarrow>
   concat (map pkt_data (packets s)) @ buf s = a"
proof (induction rule: rtranclp_induct2)
  case refl
  then show ?case by simp
next
  case (step a1 s1 a2 s2)
  from step.hyps(2) show ?case
  proof (cases rule: writer_step.cases)
    case (accept b)
    then show ?thesis using step.IH step.prems by simp
  next
    case (carve r)
    then show ?thesis
      using step.IH step.prems flushStep_char[of m s1 r s2] by auto
  qed (use step.IH step.prems in auto)
qed

lemma writer_steps_packets:
  "(writer_step m)\<^sup>*\<^sup>* (a0, s0) (a, s) \<Longrightarrow>
   \<forall>p \<in> set (packets s0). \<not> pkt_last p \<and> checksums_ok p \<and> pkt_data p \<noteq> [] \<and> length (pkt_data p) \<le> 65536 \<Longrightarrow>
   \<forall>p \<in> set (packets s). \<not> pkt_last p \<and> checksums_ok p \<and> pkt_data p \<noteq> [] \<and> length (pkt_data p) \<le> 65536"
proof (induction rule: rtranclp_induct2)
  case refl
  then show ?case by simp
next
  case (step a1 s1 a2 s2)
  from step.hyps(2) show ?case
  proof (cases rule: writer_step.cases)
    case (carve r)
    have pos: "0 < packetLength s1"
      using carve(2) by (intro packetLength_pos) auto
    obtain cs c where s2: "s2 = s1\<lparr>conn := c, buf := drop (packetLength s1) (buf s1),
                 offset := wrap64 (offset s1 + int (packetLength s1)),
                 packets := packets s1 @ [\<lparr>pkt_seqno = seqno s1, pkt_offset = offset s1, pkt_last = False,
                     pkt_checksums = cs, pkt_data = take (packetLength s1) (buf s1)\<rparr>],
                 seqno := wrap64 (seqno s1 + 1)\<rparr>"
      and ok: "checksums_ok \<lparr>pkt_seqno = seqno s1, pkt_offset = offset s1, pkt_last = False,
                     pkt_checksums = cs, pkt_data = take (packetLength s1) (buf s1)\<rparr>"
      using flushStep_char[OF carve(4)] by blast
    have "take (packetLength s1) (buf s1) \<noteq> []"
      using pos carve(2) by auto
    moreover have "length (take (packetLength s1) (buf s1)) \<le> 65536"
      using packetLength_le_size[of s1] by simp
    ultimately show ?thesis
      using step.IH step.prems ok by (auto simp: s2)
  qed (use step.IH step.prems in auto)
qed


lemma writer_steps_offset:
  "(writer_step m)\<^sup>*\<^sup>* (a0, s0) (a, s) \<Longrightarrow>
   offset s0 = wrap64 (off0 + int (length (concat (map pkt_data (packets s0))))) \<and>
     (\<forall>k<length (packets s0). pkt_offset (packets s0 ! k) =
        wrap64 (off0 + int (length (concat (map pkt_data (take k (packets s0))))))) \<Longrightarrow>
   offset s = wrap64 (off0 + int (length (concat (map pkt_data (packets s))))) \<and>
     (\<forall>k<length (packets s). pkt_offset (packets s ! k) =
        wrap64 (off0 + int (length (concat (map pkt_data (take k (packets s)))))))"
proof (induction rule: rtranclp_induct2)
  case refl
  then show ?case by simp
next
  case (step a1 s1 a2 s2)
  from step.hyps(2) show ?case
  proof (cases rule: writer_step.cases)
    case (carve r)
    obtain cs c where s2: "s2 = s1\<lparr>conn := c, buf := drop (packetLength s1) (buf s1),
                 offset := wrap64 (offset s1 + int (packetLength s1)),
                 packets := packets s1 @ [\<lparr>pkt_seqno = seqno s1, pkt_offset = offset s1, pkt_last = False,
                     pkt_checksums = cs, pkt_data = take (packetLength s1) (buf s1)\<rparr>],
                 seqno := wrap64 (seqno s1 + 1)\<rparr>"
      using flushStep_char[OF carve(4)] by blast
    have ih: "offset s1 = wrap64 (off0 + int (length (concat (map pkt_data (packets s1)))))"
      "\<forall>k<length (packets s1). pkt_offset (packets s1 ! k) =
        wrap64 (off0 + int (length (concat (map pkt_data (take k (packets s1))))))"
      using step.IH step.prems by simp_all
    have "offset s2 = wrap64 (off0 + int (length (concat (map pkt_data (packets s2)))))"
      by (simp add: s2 ih(1) wrap64_add add.assoc)
    moreover have "\<forall>k<length (packets s2). pkt_offset (packets s2 ! k) =
        wrap64 (off0 + int (length (concat (map pkt_data (take k (packets s2))))))"
      using ih by (auto simp: s2 nth_append less_Suc_eq)
    ultimately show ?thesis by simp
  qed (use step.IH step.prems in auto)
qed

lemma writer_steps_closed:
  "(writer_step m)\<^sup>*\<^sup>* (a0, s0) (a, s) \<Longrightarrow> closed s0 \<Longrightarrow> closed s \<and> a = a0"
proof (induction rule: rtranclp_induct2)
  case refl
  then show ?case by simp
next
  case (step a1 s1 a2 s2)
  from step.hyps(2) show ?case
  proof (cases rule: writer_step.cases)
    case (carve r)
    then show ?thesis
      using step.IH step.prems flushStep_closed[of m s1 r s2] by auto
  qed (use step.IH step.prems in auto)
qed

subsection \<open>\<open>finish\<close>\<close>

lemma flush_closed: "flush m force s = (r, s') \<Longrightarrow> closed s' = closed s"
proof (induction m force s rule: flush.induct)
  case (1 m force s)
  show ?case
  proof (cases "length (buf s) > 0 \<and> (force \<or> length (buf s) \<ge> outboundPacketSize)")
    case False
    then have "s' = s"
      using "1.prems"(1) by (auto simp: flush.simps)
    then show ?thesis by simp
  next
    case True
    obtain r1 s1 where st: "flushStep m s = (r1, s1)"
      by (cases "flushStep m s")
    show ?thesis
    proof (cases r1)
      case None
      then have "flush m force s1 = (r, s')"
        using "1.prems"(1) True st by (subst (asm) flush.simps) simp
      then have "closed s' = closed s1"
        using "1.IH"[OF True st[symmetric] None] by simp
      then show ?thesis
        using flushStep_closed[OF st] by simp
    next
      case (Some e)
      then have "s' = s1"
        using "1.prems"(1) True st by (subst (asm) flush.simps) simp
      then show ?thesis
        using flushStep_closed[OF st] by simp
    qed
  qed
qed



lemma writePacket_fields:
  "packets (snd (writePacket m s p)) = packets s \<and> buf (snd (writePacket m s p)) = buf s \<and>
   offset (snd (writePacket m s p)) = offset s \<and> seqno (snd (writePacket m s p)) = seqno s \<and>
   closed (snd (writePacket m s p)) = closed s"
  using writePacket_conn[of m s p] by auto



lemma finish_packets:
  assumes "finish m s late = (r, s')"
  shows "\<exists>t. (writer_step m)\<^sup>*\<^sup>* (a, s) (a, t) \<and>
           (packets s' = packets t \<or>
            buf t = [] \<and> closed t \<and>
            packets s' = packets t @ [\<lparr>pkt_seqno = seqno t, pkt_offset = offset t,
                pkt_last = True, pkt_checksums = [], pkt_data = []\<rparr>])"
proof (cases "closed s")
  case True
  then have "s' = s"
    using assms by (simp add: finish_def)
  then show ?thesis by blast
next
  case False
  let ?s0 = "s\<lparr>closed := True\<rparr>"
  have st0: "(writer_step m)\<^sup>*\<^sup>* (a, s) (a, ?s0)"
    using writer_step.close[of m a s] by simp
  obtain r0 s0 where fb: "finishBody m ?s0 = (r0, s0)"
    by (cases "finishBody m ?s0")
  have s': "packets s' = packets s0"
    using assms fb False by (auto simp: finish_def Let_def split: option.splits)
  obtain r1 s1 where fl: "flush m True ?s0 = (r1, s1)"
    by (cases "flush m True ?s0")
  have st1: "(writer_step m)\<^sup>*\<^sup>* (a, ?s0) (a, s1)"
    using fl by (rule flush_steps) simp
  have st: "(writer_step m)\<^sup>*\<^sup>* (a, s) (a, s1)"
    using st0 st1 by (rule rtranclp_trans)
  show ?thesis
  proof (cases "ackError s")
    case (Some e)
    then have "s0 = ?s0"
      using fb by (simp add: finishBody_def)
    then show ?thesis
      using s' st0 by auto
  next
    case None
    show ?thesis
    proof (cases r1)
      case (Some err)
      then have "s0 = s1"
        using fb fl None by (simp add: finishBody_def)
      then show ?thesis
        using s' st by auto
    next
      case r1: None
      let ?lp = "\<lparr>pkt_seqno = seqno s1, pkt_offset = offset s1,
                pkt_last = True, pkt_checksums = [], pkt_data = []\<rparr>"
      have "s0 = snd (writePacket m (s1\<lparr>packets := packets s1 @ [?lp]\<rparr>) ?lp)"
        using fb fl None r1 by (simp add: finishBody_def Let_def)
      then have "packets s0 = packets s1 @ [?lp]"
        using writePacket_fields[of m "s1\<lparr>packets := packets s1 @ [?lp]\<rparr>" ?lp] by simp
      moreover have "buf s1 = []"
        using flush_done[of m True ?s0 s1] fl r1 by simp
      moreover have "closed s1"
        using flush_closed[OF fl] by simp
      ultimately show ?thesis
        using s' st by auto
    qed
  qed
qed

text \<open>
  The packets a stream has sent, after a run or after a run and a call of finish: the
  packets of a stream that the steps reach, and after them the last packet or nothing.
\<close>

lemma emitted_cases:
  assumes "ps = packets (snd (run m (newBlockWriteStream c off) es)) \<or>
           ps = packets (snd (finish m (snd (run m (newBlockWriteStream c off) es)) late))"
  shows "\<exists>a t. (writer_step m)\<^sup>*\<^sup>* ([], newBlockWriteStream c off) (a, t) \<and>
           (ps = packets t \<or>
            buf t = [] \<and> closed t \<and>
            ps = packets t @ [\<lparr>pkt_seqno = seqno t, pkt_offset = offset t,
                pkt_last = True, pkt_checksums = [], pkt_data = []\<rparr>])"
proof -
  obtain acc s1 where r: "run m (newBlockWriteStream c off) es = (acc, s1)"
    by (cases "run m (newBlockWriteStream c off) es")
  have st1: "(writer_step m)\<^sup>*\<^sup>* ([], newBlockWriteStream c off) (acc, s1)"
    using run_steps[OF r, of "[]"] by simp
  from assms show ?thesis
  proof
    assume "ps = packets (snd (run m (newBlockWriteStream c off) es))"
    then have "ps = packets s1" by (simp add: r)
    with st1 show ?thesis by blast
  next
    assume ps: "ps = packets (snd (finish m (snd (run m (newBlockWriteStream c off) es)) late))"
    obtain r2 s2 where f: "finish m s1 late = (r2, s2)"
      by (cases "finish m s1 late")
    obtain t where t: "(writer_step m)\<^sup>*\<^sup>* (acc, s1) (acc, t)"
      "packets s2 = packets t \<or>
            buf t = [] \<and> closed t \<and>
            packets s2 = packets t @ [\<lparr>pkt_seqno = seqno t, pkt_offset = offset t,
                pkt_last = True, pkt_checksums = [], pkt_data = []\<rparr>]"
      using finish_packets[OF f, of acc] by blast
    have "(writer_step m)\<^sup>*\<^sup>* ([], newBlockWriteStream c off) (acc, t)"
      using st1 t(1) by (rule rtranclp_trans)
    moreover have "ps = packets s2"
      using ps by (simp add: r f)
    ultimately show ?thesis
      using t(2) by blast
  qed
qed


lemma new_stream_packets:
  assumes "(writer_step m)\<^sup>*\<^sup>* ([], newBlockWriteStream c off) (a, s)"
  shows "\<forall>p \<in> set (packets s). \<not> pkt_last p \<and> checksums_ok p \<and> pkt_data p \<noteq> [] \<and> length (pkt_data p) \<le> 65536"
  using assms by (rule writer_steps_packets) (simp add: newBlockWriteStream_def)


lemma new_stream_offset:
  assumes "(writer_step m)\<^sup>*\<^sup>* ([], newBlockWriteStream c off) (a, s)" "in_int64 off"
  shows "offset s = wrap64 (off + int (length (concat (map pkt_data (packets s))))) \<and>
     (\<forall>k<length (packets s). pkt_offset (packets s ! k) =
        wrap64 (off + int (length (concat (map pkt_data (take k (packets s)))))))"
  using assms(1) by (rule writer_steps_offset) (simp add: newBlockWriteStream_def wrap64_id assms(2))



subsection \<open>Alignment of the offsets\<close>

lemma writer_steps_grow:
  "(writer_step m)\<^sup>*\<^sup>* (a0, s0) (a, s) \<Longrightarrow> \<exists>new. packets s = packets s0 @ new"
proof (induction rule: rtranclp_induct2)
  case refl
  then show ?case by simp
next
  case (step a1 s1 a2 s2)
  from step.hyps(2) show ?case
  proof (cases rule: writer_step.cases)
    case (carve r)
    then show ?thesis
      using step.IH flushStep_char[of m s1 r s2] by auto
  qed (use step.IH in auto)
qed

lemma align_after_cap: "0 \<le> (x::int) \<Longrightarrow> (x + (512 - x mod 512)) mod 512 = 0"
  by presburger

lemma align_after_full: "(x::int) mod 512 = 0 \<Longrightarrow> (x + 65536) mod 512 = 0"
proof -
  assume a: "x mod 512 = 0"
  have "(x + 512 * 128) mod 512 = x mod 512"
    by (rule mod_mult_self2)
  then show ?thesis
    using a by simp
qed

lemma new_stream_aligned:
  assumes "(writer_step m)\<^sup>*\<^sup>* ([], newBlockWriteStream c off) (a, s)"
    and "0 \<le> off"
    and "off + int (length (concat (map pkt_data (packets s)))) < 2 ^ 63"
  shows "(packets s = [] \<or> offset s mod 512 = 0 \<or> closed s \<and> buf s = []) \<and>
         (\<forall>k. 0 < k \<and> k < length (packets s) \<longrightarrow> pkt_offset (packets s ! k) mod 512 = 0)"
  using assms
proof (induction rule: rtranclp_induct2)
  case refl
  then show ?case by (simp add: newBlockWriteStream_def)
next
  case (step a1 s1 a2 s2)
  from step.hyps(2) show ?case
  proof (cases rule: writer_step.cases)
    case (carve r)
    obtain cs c' where s2: "s2 = s1\<lparr>conn := c', buf := drop (packetLength s1) (buf s1),
                 offset := wrap64 (offset s1 + int (packetLength s1)),
                 packets := packets s1 @ [\<lparr>pkt_seqno = seqno s1, pkt_offset = offset s1, pkt_last = False,
                     pkt_checksums = cs, pkt_data = take (packetLength s1) (buf s1)\<rparr>],
                 seqno := wrap64 (seqno s1 + 1)\<rparr>"
      using flushStep_char[OF carve(4)] by blast
    let ?n = "int (length (concat (map pkt_data (packets s1))))"
    let ?L = "packetLength s1"
    have bound2: "off + ?n + int ?L < 2 ^ 63"
      using step.prems(2) by (simp add: s2)
    then have bound1: "off + ?n < 2 ^ 63"
      by simp
    have ih: "packets s1 = [] \<or> offset s1 mod 512 = 0 \<or> closed s1 \<and> buf s1 = []"
      "\<forall>k. 0 < k \<and> k < length (packets s1) \<longrightarrow> pkt_offset (packets s1 ! k) mod 512 = 0"
      using step.IH[OF step.prems(1) bound1] by simp_all
    have "in_int64 off"
      using step.prems(1) bound1 by (simp add: in_int64_def)
    then have "offset s1 = wrap64 (off + ?n)"
      using new_stream_offset[OF step.hyps(1)] by simp
    moreover have "in_int64 (off + ?n)"
      using step.prems(1) bound1 by (simp add: in_int64_def)
    ultimately have o1: "offset s1 = off + ?n"
      by (simp add: wrap64_id)
    have "in_int64 (offset s1 + int ?L)"
      using o1 step.prems(1) bound2 by (simp add: in_int64_def)
    then have o2: "offset s2 = offset s1 + int ?L"
      by (simp add: s2 wrap64_id)
    have nonneg: "0 \<le> offset s1"
      using o1 step.prems(1) by simp
    have nonempty: "buf s1 \<noteq> []"
      using carve(2) by auto
    have first: "packets s1 \<noteq> [] \<longrightarrow> offset s1 mod 512 = 0"
      using ih(1) nonempty by auto
    have after: "offset s2 mod 512 = 0 \<or> closed s2 \<and> buf s2 = []"
    proof (cases "offset s1 mod 512 > 0 \<and>
        int (min (length (buf s1)) 65536) > 512 - offset s1 mod 512")
      case True
      then have "int ?L = 512 - offset s1 mod 512"
        using nonneg by (simp add: packetLength_spec spec_packet_length_def Let_def)
      then show ?thesis
        using o2 align_after_cap[OF nonneg] by simp
    next
      case False
      then have L: "?L = min (length (buf s1)) 65536"
        using nonneg by (auto simp: packetLength_spec spec_packet_length_def Let_def)
      show ?thesis
      proof (cases "65536 \<le> length (buf s1)")
        case True
        then have full: "min (length (buf s1)) 65536 = 65536"
          by simp
        have "0 \<le> offset s1 mod 512"
          by simp
        then have "512 - offset s1 mod 512 < int (min (length (buf s1)) 65536)"
          by (simp only: full)
        then have "offset s1 mod 512 = 0"
          using False \<open>0 \<le> offset s1 mod 512\<close> by linarith
        then have "(offset s1 + 65536) mod 512 = 0"
          by (rule align_after_full)
        then show ?thesis
          using o2 L full by simp
      next
        case short: False
        then have "closed s1"
          using carve(3) by (simp add: outboundPacketSize_def)
        moreover have "?L = length (buf s1)"
          using L short by simp
        ultimately show ?thesis
          by (simp add: s2)
      qed
    qed
    have "\<forall>k. 0 < k \<and> k < length (packets s2) \<longrightarrow> pkt_offset (packets s2 ! k) mod 512 = 0"
      using ih(2) first by (auto simp: s2 nth_append less_Suc_eq)
    with after show ?thesis
      by simp
  qed (use step.IH step.prems in auto)
qed

subsection \<open>\<open>flush\<close> against the packetisation rule\<close>

lemma spec_drain_stop:
  "\<not> (buffered > 0 \<and> (force \<or> buffered \<ge> 65536)) \<Longrightarrow> spec_drain force buffered off = []"
  by (subst spec_drain.simps) auto

lemma spec_drain_go:
  "buffered > 0 \<and> (force \<or> buffered \<ge> 65536) \<Longrightarrow>
   spec_drain force buffered off =
     spec_packet_length buffered off #
     spec_drain force (buffered - spec_packet_length buffered off)
       (off + int (spec_packet_length buffered off))"
  by (subst spec_drain.simps) auto

lemma flush_refines:
  "flush m force s = (r, s') \<Longrightarrow> 0 \<le> offset s \<Longrightarrow>
   offset s + int (length (buf s)) < 2 ^ 63 \<Longrightarrow>
   \<exists>new. packets s' = packets s @ new \<and>
     prefix (map (\<lambda>p. length (pkt_data p)) new) (spec_drain force (length (buf s)) (offset s)) \<and>
     (r = None \<longrightarrow>
        map (\<lambda>p. length (pkt_data p)) new = spec_drain force (length (buf s)) (offset s))"
proof (induction m force s rule: flush.induct)
  case (1 m force s)
  show ?case
  proof (cases "length (buf s) > 0 \<and> (force \<or> length (buf s) \<ge> outboundPacketSize)")
    case False
    then have "s' = s" "r = None"
      using "1.prems"(1) by (auto simp: flush.simps)
    moreover have "spec_drain force (length (buf s)) (offset s) = []"
      using False by (intro spec_drain_stop) (simp add: outboundPacketSize_def)
    ultimately show ?thesis by simp
  next
    case True
    obtain r1 s1 where st: "flushStep m s = (r1, s1)"
      by (cases "flushStep m s")
    let ?L = "packetLength s"
    obtain cs c where s1: "s1 = s\<lparr>conn := c, buf := drop ?L (buf s),
                 offset := wrap64 (offset s + int ?L),
                 packets := packets s @ [\<lparr>pkt_seqno = seqno s, pkt_offset = offset s, pkt_last = False,
                     pkt_checksums = cs, pkt_data = take ?L (buf s)\<rparr>],
                 seqno := wrap64 (seqno s + 1)\<rparr>"
      using flushStep_char[OF st] by blast
    have Lle: "?L \<le> length (buf s)"
      by (rule packetLength_le)
    have Lspec: "?L = spec_packet_length (length (buf s)) (offset s)"
      using "1.prems"(2) by (rule packetLength_spec)
    have "in_int64 (offset s + int ?L)"
      using "1.prems"(2,3) Lle by (simp add: in_int64_def)
    then have o1: "offset s1 = offset s + int ?L"
      by (simp add: s1 wrap64_id)
    have b1: "length (buf s1) = length (buf s) - ?L"
      by (simp add: s1)
    have unfold: "spec_drain force (length (buf s)) (offset s) =
        ?L # spec_drain force (length (buf s1)) (offset s1)"
      using True by (subst spec_drain_go) (simp_all add: outboundPacketSize_def Lspec o1 b1)
    have p1: "packets s1 = packets s @ [\<lparr>pkt_seqno = seqno s, pkt_offset = offset s, pkt_last = False,
                     pkt_checksums = cs, pkt_data = take ?L (buf s)\<rparr>]"
      by (simp add: s1)
    show ?thesis
    proof (cases r1)
      case (Some e)
      then have "s' = s1" "r = Some e"
        using "1.prems"(1) True st by (subst (asm) flush.simps, simp)+
      then show ?thesis
        using p1 unfold Lle by simp
    next
      case None
      then have fl: "flush m force s1 = (r, s')"
        using "1.prems"(1) True st by (subst (asm) flush.simps) simp
      have "0 \<le> offset s1"
        using o1 "1.prems"(2) by simp
      moreover have "offset s1 + int (length (buf s1)) < 2 ^ 63"
        using o1 b1 Lle "1.prems"(3) by simp
      ultimately obtain new where new: "packets s' = packets s1 @ new"
        "prefix (map (\<lambda>p. length (pkt_data p)) new) (spec_drain force (length (buf s1)) (offset s1))"
        "r = None \<longrightarrow>
           map (\<lambda>p. length (pkt_data p)) new = spec_drain force (length (buf s1)) (offset s1)"
        using "1.IH"[OF True st[symmetric] None fl] by blast
      let ?p = "\<lparr>pkt_seqno = seqno s, pkt_offset = offset s, pkt_last = False,
                     pkt_checksums = cs, pkt_data = take ?L (buf s)\<rparr>"
      have "packets s' = packets s @ (?p # new)"
        using new(1) p1 by simp
      moreover have "prefix (map (\<lambda>p. length (pkt_data p)) (?p # new))
          (spec_drain force (length (buf s)) (offset s))"
        using new(2) unfold Lle by simp
      moreover have "r = None \<longrightarrow> map (\<lambda>p. length (pkt_data p)) (?p # new) =
          spec_drain force (length (buf s)) (offset s)"
        using new(3) unfold Lle by simp
      ultimately show ?thesis by blast
    qed
  qed
qed

subsection \<open>Big-endian fields\<close>

lemma split4:
  fixes x :: nat
  assumes "x < 2 ^ 32"
  shows "((x div 2 ^ 24 mod 256 * 256 + x div 2 ^ 16 mod 256) * 256 + x div 2 ^ 8 mod 256) * 256
         + x mod 256 = x"
proof -
  have a: "x div 2 ^ 24 mod 256 = x div 2 ^ 24"
    using assms by (simp add: less_mult_imp_div_less)
  have b: "x div 2 ^ 24 * 256 + x div 2 ^ 16 mod 256 = x div 2 ^ 16"
  proof -
    have "x div 2 ^ 24 = x div 2 ^ 16 div 256"
      by (simp add: div_mult2_eq[symmetric])
    then show ?thesis by simp
  qed
  have c: "x div 2 ^ 16 * 256 + x div 2 ^ 8 mod 256 = x div 2 ^ 8"
  proof -
    have "x div 2 ^ 16 = x div 2 ^ 8 div 256"
      by (simp add: div_mult2_eq[symmetric])
    then show ?thesis by simp
  qed
  have d: "x div 2 ^ 8 * 256 + x mod 256 = x"
    by simp
  show ?thesis
    by (simp only: a b c d)
qed

lemma unat_byte_of:
  fixes v :: "32 word"
  shows "unat (ucast (drop_bit n v) :: byte) = unat v div 2 ^ n mod 256"
  by (subst unsigned_ucast_eq, subst unat_drop_bit_eq)
    (simp add: take_bit_eq_mod drop_bit_eq_div)

lemma unat_drop_bit_div:
  fixes v :: "32 word"
  shows "unat (drop_bit n v) = unat v div 2 ^ n"
  by (subst unat_drop_bit_eq) (simp add: drop_bit_eq_div)

lemma unat_low_byte:
  fixes v :: "32 word"
  shows "unat (ucast v :: byte) = unat v mod 256"
  by (subst unsigned_ucast_eq) (simp add: take_bit_eq_mod)

lemma be_value_be_uint32: "be_value (be_uint32 v) = unat v"
proof -
  have "unat v < 2 ^ 32"
    using unsigned_less[of v] by simp
  then have "((unat v div 2 ^ 24 mod 256 * 256 + unat v div 2 ^ 16 mod 256) * 256
      + unat v div 2 ^ 8 mod 256) * 256 + unat v mod 256 = unat v"
    by (rule split4)
  then show ?thesis
    by (simp only: be_value_def be_uint32_def foldl.simps unat_byte_of unat_low_byte unat_drop_bit_div
        mult_zero_left add_0_left)
qed

subsection \<open>The example stream, evaluated\<close>

lemma flush_stop:
  "\<not> (0 < length (buf s) \<and> (force \<or> outboundPacketSize \<le> length (buf s))) \<Longrightarrow>
   flush m force s = (None, s)"
  by (subst flush.simps) auto

lemma flush_go:
  "0 < length (buf s) \<and> (force \<or> outboundPacketSize \<le> length (buf s)) \<Longrightarrow>
   flush m force s =
     (case flushStep m s of (Some err, s') \<Rightarrow> (Some err, s') | (None, s') \<Rightarrow> flush m force s')"
  by (subst flush.simps) (auto split: prod.splits option.splits)

lemmas example_defs =
  makePacket_def packetLength_def go_rem_def numChunks_def outboundPacketSize_def
  outboundChunkSize_def Let_def fillChecksums.simps checksumChunk_def slice_def PutUint32_def
  flushStep_def writePacket_def conn_Write_def exampleMarshal_def exampleConn_def wrap64_def

lemma example_run:
  "run exampleMarshal (newBlockWriteStream exampleConn 1022) [EvWrite [1, 2, 3, 4, 5]] =
   ([1, 2, 3, 4, 5], exampleWritten)"
  by (simp add: Write_def newBlockWriteStream_def exampleWritten_def flush_stop
      outboundPacketSize_def)

lemma example_flushStep1:
  "flushStep exampleMarshal (exampleWritten\<lparr>closed := True\<rparr>) =
   (None, \<lparr>conn = \<lparr>wire = frameHeader 10 [] @ be_uint32 (crc32_Checksum [1, 2]) @ [1, 2], script = []\<rparr>,
      buf = [3, 4, 5], offset = 1024, closed = True,
      packets = [examplePacket1], packetsClosed = False, seqno = 2, ackError = None,
      closeChClosed = False\<rparr>)"
  by (simp add: exampleWritten_def examplePacket1_def example_defs)

lemma example_flushStep2:
  "flushStep exampleMarshal \<lparr>conn = \<lparr>wire = frameHeader 10 [] @ be_uint32 (crc32_Checksum [1, 2]) @ [1, 2], script = []\<rparr>,
      buf = [3, 4, 5], offset = 1024, closed = True,
      packets = [examplePacket1], packetsClosed = False, seqno = 2, ackError = None,
      closeChClosed = False\<rparr> =
   (None, \<lparr>conn = \<lparr>wire = frameHeader 10 [] @ be_uint32 (crc32_Checksum [1, 2]) @ [1, 2] @
        frameHeader 11 [] @ be_uint32 (crc32_Checksum [3, 4, 5]) @ [3, 4, 5], script = []\<rparr>,
      buf = [], offset = 1027, closed = True,
      packets = [examplePacket1, examplePacket2], packetsClosed = False, seqno = 3, ackError = None,
      closeChClosed = False\<rparr>)"
  by (simp add: examplePacket2_def example_defs)

lemma example_flush:
  "flush exampleMarshal True (exampleWritten\<lparr>closed := True\<rparr>) =
   (None, \<lparr>conn = \<lparr>wire = frameHeader 10 [] @ be_uint32 (crc32_Checksum [1, 2]) @ [1, 2] @
        frameHeader 11 [] @ be_uint32 (crc32_Checksum [3, 4, 5]) @ [3, 4, 5], script = []\<rparr>,
      buf = [], offset = 1027, closed = True,
      packets = [examplePacket1, examplePacket2], packetsClosed = False, seqno = 3, ackError = None,
      closeChClosed = False\<rparr>)"
proof -
  have "flush exampleMarshal True (exampleWritten\<lparr>closed := True\<rparr>) =
        flush exampleMarshal True \<lparr>conn = \<lparr>wire = frameHeader 10 [] @ be_uint32 (crc32_Checksum [1, 2]) @ [1, 2], script = []\<rparr>,
      buf = [3, 4, 5], offset = 1024, closed = True,
      packets = [examplePacket1], packetsClosed = False, seqno = 2, ackError = None,
      closeChClosed = False\<rparr>"
    by (subst flush_go) (simp_all add: example_flushStep1, simp add: exampleWritten_def)
  also have "\<dots> = flush exampleMarshal True \<lparr>conn = \<lparr>wire = frameHeader 10 [] @ be_uint32 (crc32_Checksum [1, 2]) @ [1, 2] @
        frameHeader 11 [] @ be_uint32 (crc32_Checksum [3, 4, 5]) @ [3, 4, 5], script = []\<rparr>,
      buf = [], offset = 1027, closed = True,
      packets = [examplePacket1, examplePacket2], packetsClosed = False, seqno = 3, ackError = None,
      closeChClosed = False\<rparr>"
    by (subst flush_go) (simp_all add: example_flushStep2)
  also have "\<dots> = (None, \<lparr>conn = \<lparr>wire = frameHeader 10 [] @ be_uint32 (crc32_Checksum [1, 2]) @ [1, 2] @
        frameHeader 11 [] @ be_uint32 (crc32_Checksum [3, 4, 5]) @ [3, 4, 5], script = []\<rparr>,
      buf = [], offset = 1027, closed = True,
      packets = [examplePacket1, examplePacket2], packetsClosed = False, seqno = 3, ackError = None,
      closeChClosed = False\<rparr>)"
    by (rule flush_stop) simp
  finally show ?thesis .
qed

lemma example_finish:
  "finish exampleMarshal exampleWritten None = (None, exampleFinished)"
proof -
  have nc: "\<not> closed exampleWritten" and ae: "ackError (exampleWritten\<lparr>closed := True\<rparr>) = None"
    by (simp_all add: exampleWritten_def)
  show ?thesis
    by (simp add: finish_def nc finishBody_def ae example_flush Let_def writePacket_def
        conn_Write_def exampleMarshal_def exampleFinished_def examplePacket3_def exampleWire_def)
qed





lemma writePacket_fails:
  assumes "script (conn s) = Some (n, e) # rest"
    and "m \<lparr>OffsetInBlock = pkt_offset p, Seqno = pkt_seqno p, LastPacketInBlock = pkt_last p,
            DataLen = wrap32 (int (length (pkt_data p)))\<rparr> = Inr infoBytes"
  shows "fst (writePacket m s p) = Some e"
  using assms by (simp add: writePacket_def conn_Write_def Let_def)

lemma example_full_Write:
  "fst (Write exampleMarshal exampleFull [7, 8]) = (2, Some (IOError 1)) \<and>
   buf (snd (Write exampleMarshal exampleFull [7, 8])) = [8] \<and>
   length (packets (snd (Write exampleMarshal exampleFull [7, 8]))) = 1"
proof -
  let ?s1 = "exampleFull\<lparr>buf := buf exampleFull @ [7, 8]\<rparr>"
  have len: "length (buf ?s1) = 65537"
    by (simp add: exampleFull_def)
  have L: "packetLength ?s1 = 65536"
    by (simp add: packetLength_def len Let_def outboundPacketSize_def outboundChunkSize_def
        go_rem_def exampleFull_def)
  obtain r s2 where st: "flushStep exampleMarshal ?s1 = (r, s2)"
    by (cases "flushStep exampleMarshal ?s1")
  obtain cs c where s2: "s2 = ?s1\<lparr>conn := c, buf := drop (packetLength ?s1) (buf ?s1),
                 offset := wrap64 (offset ?s1 + int (packetLength ?s1)),
                 packets := packets ?s1 @ [\<lparr>pkt_seqno = seqno ?s1, pkt_offset = offset ?s1,
                     pkt_last = False, pkt_checksums = cs,
                     pkt_data = take (packetLength ?s1) (buf ?s1)\<rparr>],
                 seqno := wrap64 (seqno ?s1 + 1)\<rparr>"
    using flushStep_char[OF st] by blast
  have b2: "buf s2 = [8]"
    by (simp add: s2 L) (simp add: exampleFull_def)
  have p2: "length (packets s2) = 1"
    by (simp add: s2 exampleFull_def)
  obtain cs' where mk: "makePacket ?s1 =
     Some (\<lparr>pkt_seqno = seqno ?s1, pkt_offset = offset ?s1, pkt_last = False,
            pkt_checksums = cs', pkt_data = take (packetLength ?s1) (buf ?s1)\<rparr>,
           ?s1\<lparr>buf := drop (packetLength ?s1) (buf ?s1)\<rparr>)"
    using makePacket_char[of ?s1] by blast
  have "fst (flushStep exampleMarshal ?s1) = Some (IOError 1)"
    unfolding flushStep_def mk
    by (simp add: Let_def del: min_packetLength)
      (rule writePacket_fails[where n = 0 and rest = "[]" and infoBytes = "[]"],
        simp_all add: exampleFull_def brokenConn_def exampleMarshal_def)
  then have r: "r = Some (IOError 1)"
    using st by simp
  have "0 < length (buf ?s1) \<and> (False \<or> outboundPacketSize \<le> length (buf ?s1))"
    using len by (simp add: outboundPacketSize_def)
  then have "flush exampleMarshal False ?s1 = (Some (IOError 1), s2)"
    using flush_go[of ?s1 False exampleMarshal] by (simp only: st r) simp
  then have "Write exampleMarshal exampleFull [7, 8] = ((2, Some (IOError 1)), s2)"
    by (simp add: Write_def Let_def) (simp add: exampleFull_def)
  then show ?thesis
    using b2 p2 by simp
qed

section \<open>The properties of the specification\<close>

subsection \<open>The packets on the channel after \<open>finish\<close>\<close>



subsection \<open>C3: the checksums of a packet\<close>

text \<open>
  C3. Every packet that a stream sends, in a run or in the call of \<open>finish\<close> after
  it, has a checksum array of four bytes for each chunk of its data, \<open>4 * ceil (L / 512)\<close>
  bytes for data of length \<open>L\<close>, and the four bytes at position \<open>4 * i\<close> are the
  big-endian CRC32 (IEEE) of the bytes \<open>512 * i\<close> up to \<open>min (512 * (i + 1)) L\<close> of the
  data; the chunk at the end can be shorter than 512 bytes.
\<close>

theorem checksums_of_emitted:
  assumes "ps = packets (snd (run m (newBlockWriteStream c off) es)) \<or>
           ps = packets (snd (finish m (snd (run m (newBlockWriteStream c off) es)) late))"
    and "p \<in> set ps"
  shows "length (pkt_checksums p) = 4 * ((length (pkt_data p) + 511) div 512) \<and>
         (\<forall>i < (length (pkt_data p) + 511) div 512.
            take 4 (drop (4 * i) (pkt_checksums p)) =
            be_uint32 (crc32_Checksum
              (take (min (512 * (i + 1)) (length (pkt_data p)) - 512 * i)
                 (drop (512 * i) (pkt_data p)))))"
proof -
  obtain a t where t: "(writer_step m)\<^sup>*\<^sup>* ([], newBlockWriteStream c off) (a, t)"
    "ps = packets t \<or>
     buf t = [] \<and> closed t \<and>
     ps = packets t @ [\<lparr>pkt_seqno = seqno t, pkt_offset = offset t,
                pkt_last = True, pkt_checksums = [], pkt_data = []\<rparr>]"
    using emitted_cases[OF assms(1)] by blast
  have inv: "\<forall>p \<in> set (packets t). checksums_ok p"
    using new_stream_packets[OF t(1)] by simp
  have "checksums_ok \<lparr>pkt_seqno = seqno t, pkt_offset = offset t,
                pkt_last = True, pkt_checksums = [], pkt_data = []\<rparr>"
    by (simp add: checksums_ok_def)
  then have "checksums_ok p"
    using inv t(2) assms(2) by auto
  then show ?thesis
    by (simp add: checksums_ok_def chunk_def)
qed

theorem checksums_of_emitted_witness:
  "packets exampleFinished =
     packets (snd (finish exampleMarshal
       (snd (run exampleMarshal (newBlockWriteStream exampleConn 1022) [EvWrite [1, 2, 3, 4, 5]]))
       None)) \<and>
   examplePacket2 \<in> set (packets exampleFinished) \<and>
   pkt_data examplePacket2 = [3, 4, 5] \<and>
   length (pkt_checksums examplePacket2) = 4 * ((3 + 511) div 512) \<and>
   (0::nat) < (3 + 511) div 512 \<and>
   take 4 (drop (4 * 0) (pkt_checksums examplePacket2)) =
     be_uint32 (crc32_Checksum (take (min (512 * (0 + 1)) 3 - 512 * 0) (drop (512 * 0) [3, 4, 5])))"
proof -
  have ps: "packets exampleFinished =
     packets (snd (finish exampleMarshal
       (snd (run exampleMarshal (newBlockWriteStream exampleConn 1022) [EvWrite [1, 2, 3, 4, 5]]))
       None))"
    by (simp only: example_run example_finish snd_conv)
  have mem: "examplePacket2 \<in> set (packets exampleFinished)"
    by (simp add: exampleFinished_def)
  have dat: "pkt_data examplePacket2 = [3, 4, 5]"
    by (simp add: examplePacket2_def)
  have i: "(0::nat) < (3 + 511) div 512"
    by simp
  note th = checksums_of_emitted[of "packets exampleFinished" exampleMarshal exampleConn 1022
      "[EvWrite [1, 2, 3, 4, 5]]" None examplePacket2, OF disjI2, OF ps mem]
  then have "length (pkt_checksums examplePacket2) = 4 * ((3 + 511) div 512)"
    and "take 4 (drop (4 * 0) (pkt_checksums examplePacket2)) =
     be_uint32 (crc32_Checksum (take (min (512 * (0 + 1)) 3 - 512 * 0) (drop (512 * 0) [3, 4, 5])))"
    using i by (simp_all add: dat)
  then show ?thesis
    using ps mem dat i by blast
qed

subsection \<open>C7: the offset of a packet\<close>

text \<open>
  C7, as amended. The offset of every packet sent is the starting offset of the stream
  plus the sum of the data lengths of the packets sent before it, in the arithmetic of
  \<open>int64\<close>; while that sum stays in the range of \<open>int64\<close> it is the plain sum.
  Without the starting offset the statement fails: the stream of the example starts at
  offset 1022 and its first packet has offset 1022, with no packet before it.
\<close>

theorem offset_of_emitted:
  assumes "ps = packets (snd (run m (newBlockWriteStream c off) es)) \<or>
           ps = packets (snd (finish m (snd (run m (newBlockWriteStream c off) es)) late))"
    and "in_int64 off"
    and "k < length ps"
  shows "pkt_offset (ps ! k) = wrap64 (off + int (\<Sum>p\<leftarrow>take k ps. length (pkt_data p))) \<and>
         (in_int64 (off + int (\<Sum>p\<leftarrow>take k ps. length (pkt_data p))) \<longrightarrow>
          pkt_offset (ps ! k) = off + int (\<Sum>p\<leftarrow>take k ps. length (pkt_data p)))"
proof -
  obtain a t where t: "(writer_step m)\<^sup>*\<^sup>* ([], newBlockWriteStream c off) (a, t)"
    "ps = packets t \<or>
     buf t = [] \<and> closed t \<and>
     ps = packets t @ [\<lparr>pkt_seqno = seqno t, pkt_offset = offset t,
                pkt_last = True, pkt_checksums = [], pkt_data = []\<rparr>]"
    using emitted_cases[OF assms(1)] by blast
  have len: "\<And>qs. int (length (concat (map pkt_data qs))) = int (\<Sum>p\<leftarrow>qs. length (pkt_data p))"
    by (simp add: length_concat comp_def)
  have inv: "offset t = wrap64 (off + int (length (concat (map pkt_data (packets t)))))"
    "\<forall>k<length (packets t). pkt_offset (packets t ! k) =
        wrap64 (off + int (length (concat (map pkt_data (take k (packets t))))))"
    using new_stream_offset[OF t(1) assms(2)] by simp_all
  have "pkt_offset (ps ! k) = wrap64 (off + int (length (concat (map pkt_data (take k ps)))))"
  proof (cases "k < length (packets t)")
    case True
    then show ?thesis
      using inv(2) t(2) by (auto simp: nth_append)
  next
    case False
    then have "ps = packets t @ [\<lparr>pkt_seqno = seqno t, pkt_offset = offset t,
                pkt_last = True, pkt_checksums = [], pkt_data = []\<rparr>]" and "k = length (packets t)"
      using t(2) assms(3) by auto
    then show ?thesis
      using inv(1) by simp
  qed
  then have "pkt_offset (ps ! k) = wrap64 (off + int (\<Sum>p\<leftarrow>take k ps. length (pkt_data p)))"
    by (simp only: len)
  then show ?thesis
    by (simp add: wrap64_id)
qed

theorem offset_of_emitted_witness:
  "packets exampleFinished =
     packets (snd (finish exampleMarshal
       (snd (run exampleMarshal (newBlockWriteStream exampleConn 1022) [EvWrite [1, 2, 3, 4, 5]]))
       None)) \<and>
   in_int64 1022 \<and> 1 < length (packets exampleFinished) \<and>
   in_int64 (1022 + int (\<Sum>p\<leftarrow>take 1 (packets exampleFinished). length (pkt_data p))) \<and>
   pkt_offset (packets exampleFinished ! 1) =
     1022 + int (\<Sum>p\<leftarrow>take 1 (packets exampleFinished). length (pkt_data p)) \<and>
   pkt_offset (packets exampleFinished ! 1) = 1024"
proof -
  have ps: "packets exampleFinished =
     packets (snd (finish exampleMarshal
       (snd (run exampleMarshal (newBlockWriteStream exampleConn 1022) [EvWrite [1, 2, 3, 4, 5]]))
       None))"
    by (simp only: example_run example_finish snd_conv)
  have h2: "in_int64 1022"
    by (simp add: in_int64_def)
  have h3: "1 < length (packets exampleFinished)"
    by (simp add: exampleFinished_def)
  have h4: "in_int64 (1022 + int (\<Sum>p\<leftarrow>take 1 (packets exampleFinished). length (pkt_data p)))"
    by (simp add: exampleFinished_def examplePacket1_def in_int64_def)
  have v: "pkt_offset (packets exampleFinished ! 1) = 1024"
    by (simp add: exampleFinished_def examplePacket2_def)
  note th = offset_of_emitted[of "packets exampleFinished" exampleMarshal exampleConn 1022
      "[EvWrite [1, 2, 3, 4, 5]]" None 1, OF disjI2, OF ps h2 h3]
  then have "pkt_offset (packets exampleFinished ! 1) =
     1022 + int (\<Sum>p\<leftarrow>take 1 (packets exampleFinished). length (pkt_data p))"
    using h4 by blast
  then show ?thesis
    using ps h2 h3 h4 v by blast
qed

theorem offset_of_emitted_counterexample:
  "run exampleMarshal (newBlockWriteStream exampleConn 1022) [EvWrite [1, 2, 3, 4, 5]] =
     ([1, 2, 3, 4, 5], exampleWritten) \<and>
   finish exampleMarshal exampleWritten None = (None, exampleFinished) \<and>
   packets exampleFinished ! 0 = examplePacket1 \<and>
   \<not> pkt_last examplePacket1 \<and>
   take 0 (packets exampleFinished) = [] \<and>
   pkt_offset (packets exampleFinished ! 0) = 1022 \<and>
   pkt_offset (packets exampleFinished ! 0) \<noteq>
     int (sum_list (map (length \<circ> pkt_data) (take 0 (packets exampleFinished))))"
proof -
  have "packets exampleFinished ! 0 = examplePacket1 \<and>
   \<not> pkt_last examplePacket1 \<and>
   take 0 (packets exampleFinished) = [] \<and>
   pkt_offset (packets exampleFinished ! 0) = 1022 \<and>
   pkt_offset (packets exampleFinished ! 0) \<noteq>
     int (sum_list (map (length \<circ> pkt_data) (take 0 (packets exampleFinished))))"
    by (simp add: exampleFinished_def examplePacket1_def)
  then show ?thesis
    using example_run example_finish by blast
qed

subsection \<open>C8: alignment of the offsets\<close>

text \<open>
  C8, as amended. For a stream that starts at an offset that is not negative and stays
  in the range of \<open>int64\<close>, the offset of every data packet sent (every packet but the
  last, empty one) is a multiple of 512, except possibly that of the first packet when
  the starting offset is not a multiple of 512. The last packet is not covered: it
  carries the final offset, which is a multiple of 512 only when the block ends on a
  chunk boundary. In the example it is the third packet and has offset 1027.
\<close>

theorem aligned_offsets:
  assumes "ps = packets (snd (run m (newBlockWriteStream c off) es)) \<or>
           ps = packets (snd (finish m (snd (run m (newBlockWriteStream c off) es)) late))"
    and "0 \<le> off"
    and "off + int (\<Sum>p\<leftarrow>ps. length (pkt_data p)) < 2 ^ 63"
    and "k < length ps"
    and "\<not> pkt_last (ps ! k)"
    and "k = 0 \<longrightarrow> off mod 512 = 0"
  shows "pkt_offset (ps ! k) mod 512 = 0"
proof -
  obtain a t where t: "(writer_step m)\<^sup>*\<^sup>* ([], newBlockWriteStream c off) (a, t)"
    "ps = packets t \<or>
     buf t = [] \<and> closed t \<and>
     ps = packets t @ [\<lparr>pkt_seqno = seqno t, pkt_offset = offset t,
                pkt_last = True, pkt_checksums = [], pkt_data = []\<rparr>]"
    using emitted_cases[OF assms(1)] by blast
  have k: "k < length (packets t)"
    using t(2) assms(4,5) by (auto simp: nth_append less_Suc_eq split: if_splits)
  then have pk: "ps ! k = packets t ! k"
    using t(2) by (auto simp: nth_append)
  have "(\<Sum>p\<leftarrow>ps. length (pkt_data p)) = (\<Sum>p\<leftarrow>packets t. length (pkt_data p))"
    using t(2) by auto
  then have bound: "off + int (length (concat (map pkt_data (packets t)))) < 2 ^ 63"
    using assms(3) by (simp add: length_concat comp_def)
  show ?thesis
  proof (cases "k = 0")
    case True
    have "in_int64 off"
      using assms(2) bound by (simp add: in_int64_def)
    then have "pkt_offset (packets t ! k) = off"
      using new_stream_offset[OF t(1)] k True by (simp add: wrap64_id)
    then show ?thesis
      using assms(6) True pk by simp
  next
    case False
    then show ?thesis
      using new_stream_aligned[OF t(1) assms(2) bound] k pk by simp
  qed
qed

theorem aligned_offsets_witness:
  "packets exampleFinished =
     packets (snd (finish exampleMarshal
       (snd (run exampleMarshal (newBlockWriteStream exampleConn 1022) [EvWrite [1, 2, 3, 4, 5]]))
       None)) \<and>
   (0::int) \<le> 1022 \<and>
   1022 + int (\<Sum>p\<leftarrow>packets exampleFinished. length (pkt_data p)) < 2 ^ 63 \<and>
   1 < length (packets exampleFinished) \<and>
   \<not> pkt_last (packets exampleFinished ! 1) \<and> (1::nat) \<noteq> 0 \<and>
   pkt_offset (packets exampleFinished ! 1) mod 512 = 0 \<and>
   pkt_offset (packets exampleFinished ! 1) = 1024"
proof -
  have ps: "packets exampleFinished =
     packets (snd (finish exampleMarshal
       (snd (run exampleMarshal (newBlockWriteStream exampleConn 1022) [EvWrite [1, 2, 3, 4, 5]]))
       None))"
    by (simp only: example_run example_finish snd_conv)
  have h2: "(0::int) \<le> 1022"
    by simp
  have h3: "1022 + int (\<Sum>p\<leftarrow>packets exampleFinished. length (pkt_data p)) < 2 ^ 63"
    by (simp add: exampleFinished_def examplePacket1_def examplePacket2_def examplePacket3_def)
  have h4: "1 < length (packets exampleFinished)"
    by (simp add: exampleFinished_def)
  have h5: "\<not> pkt_last (packets exampleFinished ! 1)"
    by (simp add: exampleFinished_def examplePacket2_def)
  have h6: "(1::nat) = 0 \<longrightarrow> (1022::int) mod 512 = 0"
    by simp
  have v: "pkt_offset (packets exampleFinished ! 1) = 1024"
    by (simp add: exampleFinished_def examplePacket2_def)
  note th = aligned_offsets[of "packets exampleFinished" exampleMarshal exampleConn 1022
      "[EvWrite [1, 2, 3, 4, 5]]" None 1, OF disjI2, OF ps h2 h3 h4 h5 h6]
  have k: "(1::nat) \<noteq> 0"
    by simp
  show ?thesis
    using th ps h2 h3 h4 h5 k v by blast
qed

theorem aligned_offsets_counterexample:
  "run exampleMarshal (newBlockWriteStream exampleConn 1022) [EvWrite [1, 2, 3, 4, 5]] =
     ([1, 2, 3, 4, 5], exampleWritten) \<and>
   finish exampleMarshal exampleWritten None = (None, exampleFinished) \<and>
   packets exampleFinished ! 2 = examplePacket3 \<and>
   pkt_offset examplePacket3 = 1027 \<and>
   pkt_offset (packets exampleFinished ! 2) mod 512 \<noteq> 0"
proof -
  have "packets exampleFinished ! 2 = examplePacket3 \<and>
   pkt_offset examplePacket3 = 1027 \<and>
   pkt_offset (packets exampleFinished ! 2) mod 512 \<noteq> 0"
    by (simp add: exampleFinished_def examplePacket3_def)
  then show ?thesis
    using example_run example_finish by blast
qed

subsection \<open>C2: the packets of one drain\<close>

text \<open>
  C2. A call of \<open>flush\<close> on a stream whose offset is not negative and stays in the
  range of \<open>int64\<close> forms packets while the buffer is not empty and the flush is forced
  or at least 65536 bytes are buffered. The data length of each packet is the smaller of
  the buffered bytes and 65536, capped to \<open>512 - offset mod 512\<close> when
  \<open>offset mod 512\<close> is positive and the tentative length is larger than that:
  the lengths of the packets that the call adds to the channel are those of
  \<open>spec_drain\<close>, all of them when \<open>flush\<close> returns no error and the first ones
  when a write to the socket fails and ends the drain.
\<close>

theorem flush_packet_lengths:
  assumes "flush m force s = (r, s')"
    and "0 \<le> offset s"
    and "offset s + int (length (buf s)) < 2 ^ 63"
  shows "take (length (packets s)) (packets s') = packets s \<and>
         packetLength s = spec_packet_length (length (buf s)) (offset s) \<and>
         prefix (map (\<lambda>p. length (pkt_data p)) (drop (length (packets s)) (packets s')))
           (spec_drain force (length (buf s)) (offset s)) \<and>
         (r = None \<longrightarrow>
            map (\<lambda>p. length (pkt_data p)) (drop (length (packets s)) (packets s')) =
            spec_drain force (length (buf s)) (offset s))"
proof -
  obtain new where new: "packets s' = packets s @ new"
    "prefix (map (\<lambda>p. length (pkt_data p)) new) (spec_drain force (length (buf s)) (offset s))"
    "r = None \<longrightarrow>
       map (\<lambda>p. length (pkt_data p)) new = spec_drain force (length (buf s)) (offset s)"
    using flush_refines[OF assms] by blast
  have "drop (length (packets s)) (packets s') = new"
    by (simp add: new(1))
  then show ?thesis
    using new packetLength_spec[OF assms(2)] by simp
qed

lemma example_spec_drain: "spec_drain True 5 1022 = [2, 3]"
proof -
  have "spec_drain True 5 1022 = 2 # spec_drain True 3 1024"
    by (subst spec_drain_go) (simp_all add: spec_packet_length_def)
  also have "spec_drain True 3 1024 = 3 # spec_drain True 0 1027"
    by (subst spec_drain_go) (simp_all add: spec_packet_length_def)
  also have "spec_drain True 0 1027 = []"
    by (rule spec_drain_stop) simp
  finally show ?thesis .
qed

theorem flush_packet_lengths_witness:
  "flush exampleMarshal True (exampleWritten\<lparr>closed := True\<rparr>) =
     (None, exampleFinished\<lparr>conn := \<lparr>wire = frameHeader 10 [] @ be_uint32 (crc32_Checksum [1, 2]) @ [1, 2] @
        frameHeader 11 [] @ be_uint32 (crc32_Checksum [3, 4, 5]) @ [3, 4, 5], script = []\<rparr>,
        packets := [examplePacket1, examplePacket2], packetsClosed := False,
        closeChClosed := False\<rparr>) \<and>
   0 \<le> offset (exampleWritten\<lparr>closed := True\<rparr>) \<and>
   offset (exampleWritten\<lparr>closed := True\<rparr>) + int (length (buf (exampleWritten\<lparr>closed := True\<rparr>))) < 2 ^ 63 \<and>
   packetLength (exampleWritten\<lparr>closed := True\<rparr>) = spec_packet_length 5 1022 \<and>
   spec_packet_length 5 1022 = 2 \<and>
   map (\<lambda>p. length (pkt_data p)) [examplePacket1, examplePacket2] = spec_drain True 5 1022 \<and>
   spec_drain True 5 1022 = [2, 3]"
proof -
  let ?s = "exampleWritten\<lparr>closed := True\<rparr>"
  let ?s' = "exampleFinished\<lparr>conn := \<lparr>wire = frameHeader 10 [] @ be_uint32 (crc32_Checksum [1, 2]) @ [1, 2] @
        frameHeader 11 [] @ be_uint32 (crc32_Checksum [3, 4, 5]) @ [3, 4, 5], script = []\<rparr>,
        packets := [examplePacket1, examplePacket2], packetsClosed := False,
        closeChClosed := False\<rparr>"
  have h1: "flush exampleMarshal True ?s = (None, ?s')"
    by (simp add: example_flush exampleFinished_def)
  have h2: "0 \<le> offset ?s"
    and h3: "offset ?s + int (length (buf ?s)) < 2 ^ 63"
    by (simp_all add: exampleWritten_def)
  have v: "spec_packet_length 5 1022 = 2"
    by (simp add: spec_packet_length_def)
  have e: "length (buf ?s) = 5" "offset ?s = 1022" "length (packets ?s) = 0"
    "drop 0 (packets ?s') = [examplePacket1, examplePacket2]"
    by (simp_all add: exampleWritten_def exampleFinished_def)
  note th = flush_packet_lengths[OF h1 h2 h3, unfolded e]
  show ?thesis
    using th h1 h2 h3 v example_spec_drain by blast
qed

subsection \<open>C9: what \<open>Write\<close> returns\<close>

text \<open>
  C9. \<open>Write\<close> on a closed stream returns 0 and \<open>io.ErrClosedPipe\<close>; on a stream
  that is not closed and has a latched \<open>ackError\<close> it returns 0 and that error; in
  both cases the stream is unchanged, so nothing is appended to the buffer. In every
  other case it appends its whole input to the buffer and returns the length of the
  input, together with whatever the drain returns, a write error of the socket
  included. The bytes that the drain did not put into packets are still in the buffer:
  the data of the new packets followed by the buffer is the old buffer followed by the
  input.
\<close>

theorem Write_returns:
  "(closed s \<longrightarrow> Write m s b = ((0, Some ErrClosedPipe), s)) \<and>
   (\<not> closed s \<and> ackError s = Some e \<longrightarrow> Write m s b = ((0, Some e), s)) \<and>
   (\<not> closed s \<and> ackError s = None \<longrightarrow>
      (\<exists>err s' new. Write m s b = ((length b, err), s') \<and>
         flush m False (s\<lparr>buf := buf s @ b\<rparr>) = (err, s') \<and>
         packets s' = packets s @ new \<and>
         concat (map pkt_data new) @ buf s' = buf s @ b))"
proof (intro conjI impI)
  assume "closed s"
  then show "Write m s b = ((0, Some ErrClosedPipe), s)"
    by (simp add: Write_def)
next
  assume "\<not> closed s \<and> ackError s = Some e"
  then show "Write m s b = ((0, Some e), s)"
    by (simp add: Write_def)
next
  assume a: "\<not> closed s \<and> ackError s = None"
  let ?s1 = "s\<lparr>buf := buf s @ b\<rparr>"
  obtain err s' where fl: "flush m False ?s1 = (err, s')"
    by (cases "flush m False ?s1")
  have w: "Write m s b = ((length b, err), s')"
    using a fl by (simp add: Write_def Let_def)
  let ?a = "concat (map pkt_data (packets ?s1)) @ buf ?s1"
  have st: "(writer_step m)\<^sup>*\<^sup>* (?a, ?s1) (?a, s')"
    using fl by (rule flush_steps) simp
  obtain new where new: "packets s' = packets ?s1 @ new"
    using writer_steps_grow[OF st] by blast
  have "concat (map pkt_data (packets s')) @ buf s' = ?a"
    using st by (rule writer_steps_data) simp
  then have "concat (map pkt_data new) @ buf s' = buf s @ b"
    using new by simp
  then show "\<exists>err s' new. Write m s b = ((length b, err), s') \<and>
         flush m False (s\<lparr>buf := buf s @ b\<rparr>) = (err, s') \<and>
         packets s' = packets s @ new \<and>
         concat (map pkt_data new) @ buf s' = buf s @ b"
    using w fl new by auto
qed

theorem Write_returns_witness:
  "closed exampleFinished \<and>
   Write exampleMarshal exampleFinished [9] = ((0, Some ErrClosedPipe), exampleFinished) \<and>
   \<not> closed (exampleWritten\<lparr>ackError := Some ErrInvalidSeqno\<rparr>) \<and>
   ackError (exampleWritten\<lparr>ackError := Some ErrInvalidSeqno\<rparr>) = Some ErrInvalidSeqno \<and>
   Write exampleMarshal (exampleWritten\<lparr>ackError := Some ErrInvalidSeqno\<rparr>) [9] =
     ((0, Some ErrInvalidSeqno), exampleWritten\<lparr>ackError := Some ErrInvalidSeqno\<rparr>) \<and>
   \<not> closed exampleWritten \<and> ackError exampleWritten = None \<and>
   Write exampleMarshal exampleWritten [9] =
     ((1, None), exampleWritten\<lparr>buf := [1, 2, 3, 4, 5, 9]\<rparr>) \<and>
   \<not> closed exampleFull \<and> ackError exampleFull = None \<and>
   fst (Write exampleMarshal exampleFull [7, 8]) = (length [7, 8 :: byte], Some (IOError 1)) \<and>
   buf (snd (Write exampleMarshal exampleFull [7, 8])) = [8]"
proof -
  have c1: "closed exampleFinished"
    by (simp add: exampleFinished_def)
  have c2: "\<not> closed (exampleWritten\<lparr>ackError := Some ErrInvalidSeqno\<rparr>) \<and>
     ackError (exampleWritten\<lparr>ackError := Some ErrInvalidSeqno\<rparr>) = Some ErrInvalidSeqno"
    by (simp add: exampleWritten_def)
  have c3: "\<not> closed exampleWritten \<and> ackError exampleWritten = None"
    by (simp add: exampleWritten_def)
  have w1: "Write exampleMarshal exampleFinished [9] = ((0, Some ErrClosedPipe), exampleFinished)"
    using Write_returns[of exampleFinished exampleMarshal "[9]"] c1 by blast
  have w2: "Write exampleMarshal (exampleWritten\<lparr>ackError := Some ErrInvalidSeqno\<rparr>) [9] =
     ((0, Some ErrInvalidSeqno), exampleWritten\<lparr>ackError := Some ErrInvalidSeqno\<rparr>)"
    using Write_returns[of "exampleWritten\<lparr>ackError := Some ErrInvalidSeqno\<rparr>" exampleMarshal "[9]"
        ErrInvalidSeqno] c2 by blast
  have fl: "flush exampleMarshal False (exampleWritten\<lparr>buf := buf exampleWritten @ [9]\<rparr>) =
      (None, exampleWritten\<lparr>buf := [1, 2, 3, 4, 5, 9]\<rparr>)"
    by (subst flush_stop) (simp_all add: exampleWritten_def outboundPacketSize_def)
  obtain err s' where "Write exampleMarshal exampleWritten [9] = ((length [9 :: byte], err), s')"
    "flush exampleMarshal False (exampleWritten\<lparr>buf := buf exampleWritten @ [9]\<rparr>) = (err, s')"
    using Write_returns[of exampleWritten exampleMarshal "[9]"] c3 by blast
  then have w3: "Write exampleMarshal exampleWritten [9] =
     ((1, None), exampleWritten\<lparr>buf := [1, 2, 3, 4, 5, 9]\<rparr>)"
    using fl by simp
  have c4: "\<not> closed exampleFull \<and> ackError exampleFull = None"
    by (simp add: exampleFull_def)
  obtain err4 s4 where "Write exampleMarshal exampleFull [7, 8] = ((length [7, 8 :: byte], err4), s4)"
    using Write_returns[of exampleFull exampleMarshal "[7, 8]"] c4 by blast
  then have w4: "fst (Write exampleMarshal exampleFull [7, 8]) =
      (length [7, 8 :: byte], Some (IOError 1))"
    using example_full_Write by simp
  have b4: "buf (snd (Write exampleMarshal exampleFull [7, 8])) = [8]"
    using example_full_Write by simp
  show ?thesis
    using c1 c2 c3 w1 w2 w3 c4 w4 b4 by blast
qed

subsection \<open>C10: calling \<open>finish\<close> again\<close>

lemma finish_closed: "finish m s late = (r, s') \<Longrightarrow> closed s'"
proof (cases "closed s")
  case True
  assume "finish m s late = (r, s')"
  then show ?thesis
    using True by (simp add: finish_def)
next
  case False
  assume f: "finish m s late = (r, s')"
  let ?s0 = "s\<lparr>closed := True\<rparr>"
  obtain r0 s0 where fb: "finishBody m ?s0 = (r0, s0)"
    by (cases "finishBody m ?s0")
  have c': "closed s' = closed s0"
    using f fb False by (auto simp: finish_def Let_def split: option.splits)
  obtain r1 s1 where fl: "flush m True ?s0 = (r1, s1)"
    by (cases "flush m True ?s0")
  have c1: "closed s1"
    using flush_closed[OF fl] by simp
  have "closed s0"
  proof (cases "ackError s")
    case (Some e)
    then show ?thesis using fb by (auto simp: finishBody_def)
  next
    case None
    show ?thesis
    proof (cases r1)
      case (Some err)
      then show ?thesis using fb fl None c1 by (auto simp: finishBody_def)
    next
      case r1: None
      let ?lp = "\<lparr>pkt_seqno = seqno s1, pkt_offset = offset s1,
              pkt_last = True, pkt_checksums = [], pkt_data = []\<rparr>"
      have "s0 = snd (writePacket m (s1\<lparr>packets := packets s1 @ [?lp]\<rparr>) ?lp)"
        using fb fl None r1 by (simp add: finishBody_def Let_def)
      then show ?thesis
        using writePacket_fields[of m "s1\<lparr>packets := packets s1 @ [?lp]\<rparr>" ?lp] c1 by simp
    qed
  qed
  then show ?thesis
    using c' by simp
qed

lemma run_on_closed:
  "run m s es = (acc, s') \<Longrightarrow> closed s \<Longrightarrow>
   acc = [] \<and> closed s' \<and> packets s' = packets s \<and> buf s' = buf s \<and>
   offset s' = offset s \<and> seqno s' = seqno s \<and>
   packetsClosed s' = packetsClosed s \<and> closeChClosed s' = closeChClosed s"
proof (induction es arbitrary: s acc s')
  case Nil
  then show ?case by simp
next
  case (Cons ev es)
  show ?case
  proof (cases ev)
    case (EvWrite b)
    have w: "Write m s b = ((0, Some ErrClosedPipe), s)"
      using Cons.prems(2) by (simp add: Write_def)
    obtain acc1 where r: "run m s es = (acc1, s')" and acc: "acc = acc1"
      using Cons.prems(1) EvWrite w by (cases "run m s es") auto
    show ?thesis
      using Cons.IH[OF r Cons.prems(2)] acc by simp
  next
    case (EvAckError e)
    let ?s1 = "s\<lparr>ackError := (case ackError s of Some e0 \<Rightarrow> Some e0 | None \<Rightarrow> Some e)\<rparr>"
    have "run m ?s1 es = (acc, s')"
      using Cons.prems(1) EvAckError by simp
    then show ?thesis
      using Cons.IH[of ?s1 acc s'] Cons.prems(2) by simp
  next
    case EvHeartBeat
    obtain c where c: "snd (writeHeartBeatPacket m s) = s\<lparr>conn := c\<rparr>"
      using writeHeartBeatPacket_conn by blast
    have "run m (s\<lparr>conn := c\<rparr>) es = (acc, s')"
      using Cons.prems(1) EvHeartBeat c by simp
    then show ?thesis
      using Cons.IH[of "s\<lparr>conn := c\<rparr>" acc s'] Cons.prems(2) by simp
  qed
qed

lemma example_finish_error:
  "finish exampleMarshal exampleWritten (Some ErrInvalidSeqno) =
   (Some ErrInvalidSeqno, exampleFinished\<lparr>ackError := Some ErrInvalidSeqno\<rparr>)"
proof -
  have nc: "\<not> closed exampleWritten" and ae: "ackError (exampleWritten\<lparr>closed := True\<rparr>) = None"
    by (simp_all add: exampleWritten_def)
  show ?thesis
    by (simp add: finish_def nc finishBody_def ae example_flush Let_def writePacket_def
        conn_Write_def exampleMarshal_def exampleFinished_def examplePacket3_def exampleWire_def)
qed

text \<open>
  C10. On a stream on which \<open>finish\<close> has been called, whatever that call returned
  and whatever the caller, the acker and the heartbeat did since, a call of \<open>finish\<close>
  returns nil and leaves the stream as it is: it sends no packet, closes no channel and
  does not look at what the acker latched (\<open>late2\<close>), also when \<open>ackError\<close> is set.
  Nothing is accepted by \<open>Write\<close> in between.
\<close>

theorem finish_again:
  assumes "finish m s late1 = (r1, s1)"
    and "run m s1 es = (acc, s2)"
  shows "finish m s2 late2 = (None, s2) \<and> acc = [] \<and> packets s2 = packets s1 \<and>
         packetsClosed s2 = packetsClosed s1 \<and> closeChClosed s2 = closeChClosed s1"
proof -
  have "closed s1"
    using assms(1) by (rule finish_closed)
  then have r: "acc = [] \<and> closed s2 \<and> packets s2 = packets s1 \<and>
      packetsClosed s2 = packetsClosed s1 \<and> closeChClosed s2 = closeChClosed s1"
    using run_on_closed[OF assms(2)] by simp
  then have "finish m s2 late2 = (None, s2)"
    by (simp add: finish_def)
  with r show ?thesis by simp
qed

theorem finish_again_witness:
  "finish exampleMarshal exampleWritten (Some ErrInvalidSeqno) =
     (Some ErrInvalidSeqno, exampleFinished\<lparr>ackError := Some ErrInvalidSeqno\<rparr>) \<and>
   run exampleMarshal (exampleFinished\<lparr>ackError := Some ErrInvalidSeqno\<rparr>) [] =
     ([], exampleFinished\<lparr>ackError := Some ErrInvalidSeqno\<rparr>) \<and>
   finish exampleMarshal (exampleFinished\<lparr>ackError := Some ErrInvalidSeqno\<rparr>)
       (Some (IOError 7)) =
     (None, exampleFinished\<lparr>ackError := Some ErrInvalidSeqno\<rparr>)"
proof -
  have r: "run exampleMarshal (exampleFinished\<lparr>ackError := Some ErrInvalidSeqno\<rparr>) [] =
     ([], exampleFinished\<lparr>ackError := Some ErrInvalidSeqno\<rparr>)"
    by simp
  note th = finish_again[OF example_finish_error r, of "Some (IOError 7)"]
  show ?thesis
    using th example_finish_error r by blast
qed

subsection \<open>C6: the length field of a frame\<close>

lemma emitted_packet_size:
  assumes "ps = packets (snd (run m (newBlockWriteStream c off) es)) \<or>
           ps = packets (snd (finish m (snd (run m (newBlockWriteStream c off) es)) late))"
    and "p \<in> set ps"
  shows "length (pkt_data p) + length (pkt_checksums p) + 4 \<le> 66052"
proof -
  obtain a t where t: "(writer_step m)\<^sup>*\<^sup>* ([], newBlockWriteStream c off) (a, t)"
    "ps = packets t \<or>
     buf t = [] \<and> closed t \<and>
     ps = packets t @ [\<lparr>pkt_seqno = seqno t, pkt_offset = offset t,
                pkt_last = True, pkt_checksums = [], pkt_data = []\<rparr>]"
    using emitted_cases[OF assms(1)] by blast
  have inv: "\<forall>p \<in> set (packets t). checksums_ok p \<and> length (pkt_data p) \<le> 65536"
    using new_stream_packets[OF t(1)] by simp
  show ?thesis
  proof (cases "p \<in> set (packets t)")
    case True
    then have ok: "length (pkt_checksums p) = 4 * ((length (pkt_data p) + 511) div 512)"
      and le: "length (pkt_data p) \<le> 65536"
      using inv by (simp_all add: checksums_ok_def)
    have "(length (pkt_data p) + 511) div 512 \<le> 128"
      using le by simp
    then show ?thesis
      using ok le by simp
  next
    case False
    then have "p = \<lparr>pkt_seqno = seqno t, pkt_offset = offset t,
                pkt_last = True, pkt_checksums = [], pkt_data = []\<rparr>"
      using t(2) assms(2) by auto
    then show ?thesis by simp
  qed
qed

lemma conn_Write_None: "conn_Write c b = (None, c') \<Longrightarrow> wire c' = wire c @ b"
  by (auto simp: conn_Write_def split: list.splits option.splits prod.splits)

lemma writePacket_wire:
  assumes "writePacket m s p = (None, s')"
  shows "\<exists>infoBytes.
           m \<lparr>OffsetInBlock = pkt_offset p, Seqno = pkt_seqno p, LastPacketInBlock = pkt_last p,
              DataLen = wrap32 (int (length (pkt_data p)))\<rparr> = Inr infoBytes \<and>
           wire (conn s') = wire (conn s) @
             frameHeader (length (pkt_data p) + length (pkt_checksums p) + 4) infoBytes @
             pkt_checksums p @ pkt_data p"
proof (cases "m \<lparr>OffsetInBlock = pkt_offset p, Seqno = pkt_seqno p, LastPacketInBlock = pkt_last p,
              DataLen = wrap32 (int (length (pkt_data p)))\<rparr>")
  case (Inl e)
  then show ?thesis
    using assms by (simp add: writePacket_def)
next
  case (Inr infoBytes)
  let ?h = "frameHeader (length (pkt_data p) + length (pkt_checksums p) + 4) infoBytes"
  obtain e1 c1 where w1: "conn_Write (conn s) ?h = (e1, c1)"
    by (cases "conn_Write (conn s) ?h")
  obtain e2 c2 where w2: "conn_Write c1 (pkt_checksums p) = (e2, c2)"
    by (cases "conn_Write c1 (pkt_checksums p)")
  obtain e3 c3 where w3: "conn_Write c2 (pkt_data p) = (e3, c3)"
    by (cases "conn_Write c2 (pkt_data p)")
  have e1: "e1 = None"
    using assms Inr w1 by (auto simp: writePacket_def Let_def split: option.splits)
  have e2: "e2 = None"
    using assms Inr w1 w2 e1 by (auto simp: writePacket_def Let_def split: option.splits)
  have e3: "e3 = None \<and> s' = s\<lparr>conn := c3\<rparr>"
    using assms Inr w1 w2 w3 e1 e2 by (auto simp: writePacket_def Let_def split: option.splits)
  have "wire c1 = wire (conn s) @ ?h"
    using w1 e1 by (simp add: conn_Write_None)
  moreover have "wire c2 = wire c1 @ pkt_checksums p"
    using w2 e2 by (simp add: conn_Write_None)
  moreover have "wire c3 = wire c2 @ pkt_data p"
    using w3 e3 by (simp add: conn_Write_None)
  ultimately show ?thesis
    using Inr e3 by simp
qed

lemma writeHeartBeatPacket_wire:
  assumes "writeHeartBeatPacket m s = (None, s')"
  shows "\<exists>infoBytes.
           m \<lparr>OffsetInBlock = 0, Seqno = - 1, LastPacketInBlock = False, DataLen = 0\<rparr> =
             Inr infoBytes \<and>
           wire (conn s') = wire (conn s) @ frameHeader 4 infoBytes"
proof (cases "m \<lparr>OffsetInBlock = 0, Seqno = - 1, LastPacketInBlock = False, DataLen = 0\<rparr>")
  case (Inl e)
  then show ?thesis
    using assms by (simp add: writeHeartBeatPacket_def heartBeatSeqno_def)
next
  case (Inr infoBytes)
  let ?h = "frameHeader 4 infoBytes"
  obtain e1 c1 where w1: "conn_Write (conn s) ?h = (e1, c1)"
    by (cases "conn_Write (conn s) ?h")
  have "e1 = None \<and> s' = s\<lparr>conn := c1\<rparr>"
    using assms Inr w1 by (auto simp: writeHeartBeatPacket_def heartBeatSeqno_def Let_def)
  then show ?thesis
    using Inr w1 by (simp add: conn_Write_None)
qed

lemma unat_of_nat_32: "n < 2 ^ 32 \<Longrightarrow> unat (of_nat n :: 32 word) = n"
  by (simp add: unat_of_nat take_bit_nat_eq_self)

lemma example_writePacket:
  "writePacket exampleMarshal exampleWritten examplePacket2 =
   (None, exampleWritten\<lparr>conn := \<lparr>wire = frameHeader 11 [] @
      be_uint32 (crc32_Checksum [3, 4, 5]) @ [3, 4, 5], script = []\<rparr>\<rparr>)"
  by (simp add: writePacket_def exampleMarshal_def exampleWritten_def examplePacket2_def
      exampleConn_def conn_Write_def Let_def)

lemma example_writeHeartBeatPacket:
  "writeHeartBeatPacket exampleMarshal exampleWritten =
   (None, exampleWritten\<lparr>conn := \<lparr>wire = frameHeader 4 [], script = []\<rparr>\<rparr>)"
  by (simp add: writeHeartBeatPacket_def exampleMarshal_def exampleWritten_def
      exampleConn_def conn_Write_def Let_def)

text \<open>
  C6. A frame that \<open>writePacket\<close> has written in full starts with the four bytes, most
  significant first, of the data length plus the length of the checksums plus 4; the
  length of the encoded header, which comes next in the frame, is not counted. These
  bytes denote that number whenever it is below \<open>2 ^ 32\<close>. After them come the two
  bytes of the header length, the encoded header, the checksums and the data. A frame
  of \<open>writeHeartBeatPacket\<close> starts with the four bytes of the number 4 and holds the
  header length and the encoding of the header with offset 0, seqno -1, \<open>last\<close> false
  and data length 0, and nothing else.
\<close>

theorem frame_payload_length:
  "(writePacket m s p = (None, s') \<longrightarrow>
      (\<exists>infoBytes.
         m \<lparr>OffsetInBlock = pkt_offset p, Seqno = pkt_seqno p, LastPacketInBlock = pkt_last p,
            DataLen = wrap32 (int (length (pkt_data p)))\<rparr> = Inr infoBytes \<and>
         wire (conn s') = wire (conn s) @
           be_uint32 (of_nat (length (pkt_data p) + length (pkt_checksums p) + 4)) @
           be_uint16 (of_nat (length infoBytes)) @ infoBytes @
           pkt_checksums p @ pkt_data p \<and>
         (length (pkt_data p) + length (pkt_checksums p) + 4 < 2 ^ 32 \<longrightarrow>
            be_value (be_uint32 (of_nat (length (pkt_data p) + length (pkt_checksums p) + 4))) =
            length (pkt_data p) + length (pkt_checksums p) + 4))) \<and>
   (writeHeartBeatPacket m s = (None, s'') \<longrightarrow>
      (\<exists>infoBytes.
         m \<lparr>OffsetInBlock = 0, Seqno = - 1, LastPacketInBlock = False, DataLen = 0\<rparr> =
           Inr infoBytes \<and>
         wire (conn s'') = wire (conn s) @
           be_uint32 4 @ be_uint16 (of_nat (length infoBytes)) @ infoBytes \<and>
         be_value (be_uint32 4) = 4))"
proof (intro conjI impI)
  assume w: "writePacket m s p = (None, s')"
  let ?n = "length (pkt_data p) + length (pkt_checksums p) + 4"
  obtain infoBytes where i: "m \<lparr>OffsetInBlock = pkt_offset p, Seqno = pkt_seqno p,
            LastPacketInBlock = pkt_last p,
            DataLen = wrap32 (int (length (pkt_data p)))\<rparr> = Inr infoBytes"
    "wire (conn s') = wire (conn s) @ frameHeader ?n infoBytes @ pkt_checksums p @ pkt_data p"
    using writePacket_wire[OF w] by blast
  have "?n < 2 ^ 32 \<longrightarrow> be_value (be_uint32 (of_nat ?n)) = ?n"
  proof
    assume "?n < 2 ^ 32"
    then have "unat (of_nat ?n :: 32 word) = ?n"
      by (rule unat_of_nat_32)
    then show "be_value (be_uint32 (of_nat ?n)) = ?n"
      by (simp only: be_value_be_uint32)
  qed
  then show "\<exists>infoBytes.
         m \<lparr>OffsetInBlock = pkt_offset p, Seqno = pkt_seqno p, LastPacketInBlock = pkt_last p,
            DataLen = wrap32 (int (length (pkt_data p)))\<rparr> = Inr infoBytes \<and>
         wire (conn s') = wire (conn s) @
           be_uint32 (of_nat (length (pkt_data p) + length (pkt_checksums p) + 4)) @
           be_uint16 (of_nat (length infoBytes)) @ infoBytes @
           pkt_checksums p @ pkt_data p \<and>
         (length (pkt_data p) + length (pkt_checksums p) + 4 < 2 ^ 32 \<longrightarrow>
            be_value (be_uint32 (of_nat (length (pkt_data p) + length (pkt_checksums p) + 4))) =
            length (pkt_data p) + length (pkt_checksums p) + 4)"
    using i by (auto simp: frameHeader_def)
next
  assume w: "writeHeartBeatPacket m s = (None, s'')"
  obtain infoBytes where i: "m \<lparr>OffsetInBlock = 0, Seqno = - 1, LastPacketInBlock = False,
      DataLen = 0\<rparr> = Inr infoBytes"
    "wire (conn s'') = wire (conn s) @ frameHeader 4 infoBytes"
    using writeHeartBeatPacket_wire[OF w] by blast
  have "be_value (be_uint32 4) = 4"
    by (simp only: be_value_be_uint32) simp
  then show "\<exists>infoBytes.
         m \<lparr>OffsetInBlock = 0, Seqno = - 1, LastPacketInBlock = False, DataLen = 0\<rparr> =
           Inr infoBytes \<and>
         wire (conn s'') = wire (conn s) @
           be_uint32 4 @ be_uint16 (of_nat (length infoBytes)) @ infoBytes \<and>
         be_value (be_uint32 4) = 4"
    using i by (auto simp: frameHeader_def)
qed

theorem frame_payload_length_witness:
  "writePacket exampleMarshal exampleWritten examplePacket2 =
     (None, exampleWritten\<lparr>conn := \<lparr>wire = frameHeader 11 [] @
        be_uint32 (crc32_Checksum [3, 4, 5]) @ [3, 4, 5], script = []\<rparr>\<rparr>) \<and>
   length (pkt_data examplePacket2) + length (pkt_checksums examplePacket2) + 4 = 11 \<and>
   (11::nat) < 2 ^ 32 \<and>
   frameHeader 11 [] @ be_uint32 (crc32_Checksum [3, 4, 5]) @ [3, 4, 5] =
     be_uint32 (of_nat 11) @ be_uint16 (of_nat (length ([] :: byte list))) @ [] @
     pkt_checksums examplePacket2 @ pkt_data examplePacket2 \<and>
   be_value (be_uint32 (of_nat 11)) = 11 \<and>
   be_uint32 (of_nat 11) = [0, 0, 0, 11] \<and>
   writeHeartBeatPacket exampleMarshal exampleWritten =
     (None, exampleWritten\<lparr>conn := \<lparr>wire = frameHeader 4 [], script = []\<rparr>\<rparr>) \<and>
   frameHeader 4 [] = be_uint32 4 @ be_uint16 (of_nat (length ([] :: byte list))) @ [] \<and>
   be_value (be_uint32 4) = 4 \<and>
   frameHeader 4 [] = [0, 0, 0, 4, 0, 0]"
proof -
  let ?sA = "exampleWritten\<lparr>conn := \<lparr>wire = frameHeader 11 [] @
        be_uint32 (crc32_Checksum [3, 4, 5]) @ [3, 4, 5], script = []\<rparr>\<rparr>"
  let ?sB = "exampleWritten\<lparr>conn := \<lparr>wire = frameHeader 4 [], script = []\<rparr>\<rparr>"
  note th = frame_payload_length[of exampleMarshal exampleWritten examplePacket2 ?sA ?sB]
  have n: "length (pkt_data examplePacket2) + length (pkt_checksums examplePacket2) + 4 = 11"
    by (simp add: examplePacket2_def be_uint32_def)
  have lt: "(11::nat) < 2 ^ 32"
    by simp
  have w0: "wire (conn exampleWritten) = []"
    by (simp add: exampleWritten_def exampleConn_def)
  from th example_writePacket obtain infoBytes where a:
    "exampleMarshal \<lparr>OffsetInBlock = pkt_offset examplePacket2, Seqno = pkt_seqno examplePacket2,
        LastPacketInBlock = pkt_last examplePacket2,
        DataLen = wrap32 (int (length (pkt_data examplePacket2)))\<rparr> = Inr infoBytes"
    "wire (conn ?sA) = wire (conn exampleWritten) @
           be_uint32 (of_nat (length (pkt_data examplePacket2) + length (pkt_checksums examplePacket2) + 4)) @
           be_uint16 (of_nat (length infoBytes)) @ infoBytes @
           pkt_checksums examplePacket2 @ pkt_data examplePacket2"
    "length (pkt_data examplePacket2) + length (pkt_checksums examplePacket2) + 4 < 2 ^ 32 \<longrightarrow>
     be_value (be_uint32 (of_nat (length (pkt_data examplePacket2) + length (pkt_checksums examplePacket2) + 4))) =
     length (pkt_data examplePacket2) + length (pkt_checksums examplePacket2) + 4"
    by blast
  have ia: "infoBytes = []"
    using a(1) by (simp add: exampleMarshal_def)
  have f1: "frameHeader 11 [] @ be_uint32 (crc32_Checksum [3, 4, 5]) @ [3, 4, 5] =
     be_uint32 (of_nat 11) @ be_uint16 (of_nat (length ([] :: byte list))) @ [] @
     pkt_checksums examplePacket2 @ pkt_data examplePacket2"
    using a(2) by (simp only: n ia w0) simp
  have f2: "be_value (be_uint32 (of_nat 11)) = 11"
    using a(3) lt by (simp only: n)
  from th example_writeHeartBeatPacket obtain hb where b:
    "exampleMarshal \<lparr>OffsetInBlock = 0, Seqno = - 1, LastPacketInBlock = False, DataLen = 0\<rparr> =
           Inr hb"
    "wire (conn ?sB) = wire (conn exampleWritten) @
           be_uint32 4 @ be_uint16 (of_nat (length hb)) @ hb"
    "be_value (be_uint32 4) = 4"
    by blast
  have ib: "hb = []"
    using b(1) by (simp add: exampleMarshal_def)
  have f3: "frameHeader 4 [] = be_uint32 4 @ be_uint16 (of_nat (length ([] :: byte list))) @ []"
    using b(2) by (simp only: ib w0) simp
  have v1: "be_uint32 (of_nat 11) = [0, 0, 0, 11]"
    by (simp add: be_uint32_def)
  have v2: "frameHeader 4 [] = [0, 0, 0, 4, 0, 0]"
    by (simp add: frameHeader_def be_uint32_def be_uint16_def)
  show ?thesis
    using example_writePacket example_writeHeartBeatPacket n lt f1 f2 f3 b(3) v1 v2 by blast
qed

subsection \<open>C4: the acker\<close>

lemma firstFailure_None: "firstFailure i sts = None \<longleftrightarrow> (\<forall>st \<in> set sts. st = Status_SUCCESS)"
  by (induction sts arbitrary: i) auto

lemma firstFailure_Some:
  "firstFailure i sts = Some (j, st) \<Longrightarrow>
   i \<le> j \<and> j - i < length sts \<and> sts ! (j - i) = st \<and> st \<noteq> Status_SUCCESS \<and>
   (\<forall>l < j - i. sts ! l = Status_SUCCESS)"
proof (induction sts arbitrary: i)
  case Nil
  then show ?case by simp
next
  case (Cons x xs)
  show ?case
  proof (cases "x \<noteq> Status_SUCCESS")
    case True
    then show ?thesis using Cons.prems by auto
  next
    case False
    then have "firstFailure (Suc i) xs = Some (j, st)"
      using Cons.prems by simp
    from Cons.IH[OF this] have ih: "Suc i \<le> j" "j - Suc i < length xs" "xs ! (j - Suc i) = st"
      "st \<noteq> Status_SUCCESS" "\<forall>l < j - Suc i. xs ! l = Status_SUCCESS"
      by simp_all
    have d: "j - i = Suc (j - Suc i)"
      using ih(1) by simp
    have "\<forall>l < j - i. (x # xs) ! l = Status_SUCCESS"
    proof (intro allI impI)
      fix l assume "l < j - i"
      then show "(x # xs) ! l = Status_SUCCESS"
        using False ih(5) d by (cases l) auto
    qed
    then show ?thesis
      using ih d by simp
  qed
qed

lemma firstFailure_ex:
  assumes "\<exists>st \<in> set sts. st \<noteq> Status_SUCCESS"
  shows "\<exists>i. i < length sts \<and> sts ! i \<noteq> Status_SUCCESS \<and> (\<forall>l < i. sts ! l = Status_SUCCESS) \<and>
           firstFailure 0 sts = Some (i, sts ! i)"
proof -
  have "firstFailure 0 sts \<noteq> None"
    using assms by (simp add: firstFailure_None)
  then obtain j st where f: "firstFailure 0 sts = Some (j, st)"
    by (cases "firstFailure 0 sts") auto
  from firstFailure_Some[OF f] show ?thesis
    using f by auto
qed

lemma readAcks_suffix: "\<exists>n. snd (readAcks pseq rs) = drop n rs"
proof (induction rs)
  case Nil
  then show ?case by simp
next
  case (Cons r rs)
  have one: "rs = drop 1 (r # rs)"
    by simp
  from Cons obtain n where n: "snd (readAcks pseq rs) = drop n rs"
    by blast
  then have two: "snd (readAcks pseq rs) = drop (Suc n) (r # rs)"
    by simp
  show ?case
  proof (cases r)
    case (Inl e)
    then have "snd (readAcks pseq (r # rs)) = rs"
      by simp
    with one show ?thesis by metis
  next
    case (Inr ack)
    show ?thesis
    proof (cases "firstFailure 0 (reply ack) = None \<and> ack_seqno ack = heartBeatSeqno")
      case True
      then have "snd (readAcks pseq (r # rs)) = snd (readAcks pseq rs)"
        using Inr by (simp add: Let_def)
      with two show ?thesis by metis
    next
      case False
      then have "snd (readAcks pseq (r # rs)) = rs"
        using Inr by (auto simp: Let_def split: option.splits)
      with one show ?thesis by metis
    qed
  qed
qed

lemma ackLoop_latched:
  "latched (ackLoop ps chClosed rs k) \<noteq> None \<Longrightarrow>
   received (ackLoop ps chClosed rs k) = k + length ps \<and>
   returned (ackLoop ps chClosed rs k) = chClosed \<and>
   (\<exists>n. unread (ackLoop ps chClosed rs k) = drop n rs)"
proof (induction ps arbitrary: rs k)
  case Nil
  then show ?case by simp
next
  case (Cons p ps)
  have suffix: "\<exists>n. snd (readAcks (pkt_seqno p) rs) = drop n rs"
    by (rule readAcks_suffix)
  obtain out rs' where ra: "readAcks (pkt_seqno p) rs = (out, rs')"
    by (cases "readAcks (pkt_seqno p) rs")
  obtain n where n: "rs' = drop n rs"
    using suffix ra by auto
  show ?case
  proof (cases out)
    case Acked
    then have eq: "ackLoop (p # ps) chClosed rs k = ackLoop ps chClosed rs' (Suc k)"
      using ra by simp
    then have "latched (ackLoop ps chClosed rs' (Suc k)) \<noteq> None"
      using Cons.prems by simp
    from Cons.IH[OF this] obtain n' where
      "received (ackLoop ps chClosed rs' (Suc k)) = Suc k + length ps"
      "returned (ackLoop ps chClosed rs' (Suc k)) = chClosed"
      "unread (ackLoop ps chClosed rs' (Suc k)) = drop n' rs'"
      by blast
    then show ?thesis
      using eq n by (auto intro: exI[of _ "n' + n"])
  next
    case (Latched e)
    then show ?thesis
      using ra n by (auto simp: drainPackets_def)
  next
    case Blocked
    then show ?thesis
      using ra Cons.prems by simp
  qed
qed

text \<open>
  C4. The acker has received the packet \<open>p\<close> from the channel, \<open>ps\<close> are the packets
  that follow on the channel, and the socket delivers the next read. A failed read
  latches its error. An ack with a status that is not SUCCESS latches an \<open>ackError\<close>
  with the index of the first such status, that status and the seqno of the ack. An ack
  of all SUCCESS with seqno -1, a heartbeat, is dropped: the acker reads again for the
  same packet and receives no packet from the channel. An ack of all SUCCESS whose seqno
  is not -1 and not the seqno of \<open>p\<close> latches \<open>ErrInvalidSeqno\<close>; with the seqno of
  \<open>p\<close> the acker goes on to the next packet. Once an error is latched the acker reads
  nothing more from the socket (\<open>unread\<close> is what followed the read that caused the
  error), receives every packet left on the channel, returns when the channel is closed,
  and the error latched is that first one.
\<close>

theorem ackPackets_latches:
  "ackLoop (p # ps) chClosed (Inl err # rs) k =
     \<lparr>latched = Some err, unread = rs, received = Suc k + length ps, returned = chClosed\<rparr> \<and>
   ((\<exists>st \<in> set (reply ack). st \<noteq> Status_SUCCESS) \<longrightarrow>
      (\<exists>i. i < length (reply ack) \<and> reply ack ! i \<noteq> Status_SUCCESS \<and>
           (\<forall>l<i. reply ack ! l = Status_SUCCESS) \<and>
           ackLoop (p # ps) chClosed (Inr ack # rs) k =
             \<lparr>latched = Some (AckError i (ack_seqno ack) (reply ack ! i)), unread = rs,
              received = Suc k + length ps, returned = chClosed\<rparr>)) \<and>
   ((\<forall>st \<in> set (reply ack). st = Status_SUCCESS) \<and> ack_seqno ack = - 1 \<longrightarrow>
      ackLoop (p # ps) chClosed (Inr ack # rs) k = ackLoop (p # ps) chClosed rs k) \<and>
   ((\<forall>st \<in> set (reply ack). st = Status_SUCCESS) \<and> ack_seqno ack \<noteq> - 1 \<and>
      ack_seqno ack \<noteq> pkt_seqno p \<longrightarrow>
      ackLoop (p # ps) chClosed (Inr ack # rs) k =
        \<lparr>latched = Some ErrInvalidSeqno, unread = rs,
         received = Suc k + length ps, returned = chClosed\<rparr>) \<and>
   ((\<forall>st \<in> set (reply ack). st = Status_SUCCESS) \<and> ack_seqno ack \<noteq> - 1 \<and>
      ack_seqno ack = pkt_seqno p \<longrightarrow>
      ackLoop (p # ps) chClosed (Inr ack # rs) k = ackLoop ps chClosed rs (Suc k)) \<and>
   (latched (ackPackets qs chClosed rs) \<noteq> None \<longrightarrow>
      received (ackPackets qs chClosed rs) = length qs \<and>
      returned (ackPackets qs chClosed rs) = chClosed \<and>
      (\<exists>n. unread (ackPackets qs chClosed rs) = drop n rs))"
proof (intro conjI impI)
  show "ackLoop (p # ps) chClosed (Inl err # rs) k =
     \<lparr>latched = Some err, unread = rs, received = Suc k + length ps, returned = chClosed\<rparr>"
    by (simp add: drainPackets_def)
next
  assume "\<exists>st \<in> set (reply ack). st \<noteq> Status_SUCCESS"
  then obtain i where i: "i < length (reply ack)" "reply ack ! i \<noteq> Status_SUCCESS"
    "\<forall>l<i. reply ack ! l = Status_SUCCESS"
    "firstFailure 0 (reply ack) = Some (i, reply ack ! i)"
    using firstFailure_ex by blast
  have "ackLoop (p # ps) chClosed (Inr ack # rs) k =
             \<lparr>latched = Some (AckError i (ack_seqno ack) (reply ack ! i)), unread = rs,
              received = Suc k + length ps, returned = chClosed\<rparr>"
    using i(4) by (simp add: drainPackets_def Let_def)
  with i show "\<exists>i. i < length (reply ack) \<and> reply ack ! i \<noteq> Status_SUCCESS \<and>
           (\<forall>l<i. reply ack ! l = Status_SUCCESS) \<and>
           ackLoop (p # ps) chClosed (Inr ack # rs) k =
             \<lparr>latched = Some (AckError i (ack_seqno ack) (reply ack ! i)), unread = rs,
              received = Suc k + length ps, returned = chClosed\<rparr>"
    by blast
next
  assume "(\<forall>st \<in> set (reply ack). st = Status_SUCCESS) \<and> ack_seqno ack = - 1"
  then have "firstFailure 0 (reply ack) = None" "ack_seqno ack = heartBeatSeqno"
    by (simp_all add: firstFailure_None heartBeatSeqno_def)
  then show "ackLoop (p # ps) chClosed (Inr ack # rs) k = ackLoop (p # ps) chClosed rs k"
    by (simp add: Let_def)
next
  assume "(\<forall>st \<in> set (reply ack). st = Status_SUCCESS) \<and> ack_seqno ack \<noteq> - 1 \<and>
      ack_seqno ack \<noteq> pkt_seqno p"
  then have "firstFailure 0 (reply ack) = None" "ack_seqno ack \<noteq> heartBeatSeqno"
    "ack_seqno ack \<noteq> pkt_seqno p"
    by (simp_all add: firstFailure_None heartBeatSeqno_def)
  then show "ackLoop (p # ps) chClosed (Inr ack # rs) k =
        \<lparr>latched = Some ErrInvalidSeqno, unread = rs,
         received = Suc k + length ps, returned = chClosed\<rparr>"
    by (simp add: Let_def drainPackets_def)
next
  assume "(\<forall>st \<in> set (reply ack). st = Status_SUCCESS) \<and> ack_seqno ack \<noteq> - 1 \<and>
      ack_seqno ack = pkt_seqno p"
  then have "firstFailure 0 (reply ack) = None" "ack_seqno ack \<noteq> heartBeatSeqno"
    "ack_seqno ack = pkt_seqno p"
    by (simp_all add: firstFailure_None heartBeatSeqno_def)
  then show "ackLoop (p # ps) chClosed (Inr ack # rs) k = ackLoop ps chClosed rs (Suc k)"
    by (simp add: Let_def)
next
  assume "latched (ackPackets qs chClosed rs) \<noteq> None"
  then have l: "latched (ackLoop qs chClosed rs 0) \<noteq> None"
    by (simp add: ackPackets_def)
  from ackLoop_latched[OF l]
  show "received (ackPackets qs chClosed rs) = length qs"
    and "returned (ackPackets qs chClosed rs) = chClosed"
    and "\<exists>n. unread (ackPackets qs chClosed rs) = drop n rs"
    by (simp_all add: ackPackets_def)
qed

theorem ackPackets_latches_witness:
  "ackLoop [examplePacket1, examplePacket2, examplePacket3] True
       [Inl (IOError 3), Inr \<lparr>ack_seqno = 1, reply = [Status_SUCCESS]\<rparr>] 0 =
     \<lparr>latched = Some (IOError 3), unread = [Inr \<lparr>ack_seqno = 1, reply = [Status_SUCCESS]\<rparr>],
      received = 3, returned = True\<rparr> \<and>
   ackLoop [examplePacket2, examplePacket3] True
       [Inr \<lparr>ack_seqno = 2, reply = [Status_SUCCESS, Status_OTHER 1]\<rparr>, Inl (IOError 3)] 1 =
     \<lparr>latched = Some (AckError 1 2 (Status_OTHER 1)), unread = [Inl (IOError 3)],
      received = 3, returned = True\<rparr> \<and>
   ackLoop [examplePacket1, examplePacket2, examplePacket3] True
       [Inr \<lparr>ack_seqno = - 1, reply = [Status_SUCCESS]\<rparr>, Inl (IOError 3)] 0 =
     ackLoop [examplePacket1, examplePacket2, examplePacket3] True [Inl (IOError 3)] 0 \<and>
   pkt_seqno examplePacket1 = 1 \<and>
   ackLoop [examplePacket1, examplePacket2, examplePacket3] True
       [Inr \<lparr>ack_seqno = 7, reply = [Status_SUCCESS]\<rparr>, Inl (IOError 3)] 0 =
     \<lparr>latched = Some ErrInvalidSeqno, unread = [Inl (IOError 3)],
      received = 3, returned = True\<rparr> \<and>
   ackLoop [examplePacket1, examplePacket2, examplePacket3] True
       [Inr \<lparr>ack_seqno = 1, reply = [Status_SUCCESS, Status_SUCCESS]\<rparr>,
        Inr \<lparr>ack_seqno = 2, reply = [Status_SUCCESS, Status_OTHER 1]\<rparr>, Inl (IOError 3)] 0 =
     ackLoop [examplePacket2, examplePacket3] True
       [Inr \<lparr>ack_seqno = 2, reply = [Status_SUCCESS, Status_OTHER 1]\<rparr>, Inl (IOError 3)] 1 \<and>
   ackPackets [examplePacket1, examplePacket2, examplePacket3] True
       [Inr \<lparr>ack_seqno = - 1, reply = [Status_SUCCESS]\<rparr>,
        Inr \<lparr>ack_seqno = 1, reply = [Status_SUCCESS, Status_SUCCESS]\<rparr>,
        Inr \<lparr>ack_seqno = 2, reply = [Status_SUCCESS, Status_OTHER 1]\<rparr>, Inl (IOError 3)] =
     \<lparr>latched = Some (AckError 1 2 (Status_OTHER 1)), unread = [Inl (IOError 3)],
      received = 3, returned = True\<rparr>"
proof -
  let ?hb = "\<lparr>ack_seqno = - 1, reply = [Status_SUCCESS]\<rparr>"
  let ?ok = "\<lparr>ack_seqno = 1, reply = [Status_SUCCESS, Status_SUCCESS]\<rparr>"
  let ?bad = "\<lparr>ack_seqno = 2, reply = [Status_SUCCESS, Status_OTHER 1]\<rparr>"
  let ?wrong = "\<lparr>ack_seqno = 7, reply = [Status_SUCCESS]\<rparr>"
  have r1: "ackLoop [examplePacket1, examplePacket2, examplePacket3] True
       [Inl (IOError 3), Inr \<lparr>ack_seqno = 1, reply = [Status_SUCCESS]\<rparr>] 0 =
     \<lparr>latched = Some (IOError 3), unread = [Inr \<lparr>ack_seqno = 1, reply = [Status_SUCCESS]\<rparr>],
      received = 3, returned = True\<rparr>"
    using ackPackets_latches[where p = examplePacket1 and ps = "[examplePacket2, examplePacket3]"
        and chClosed = True and err = "IOError 3"
        and rs = "[Inr \<lparr>ack_seqno = 1, reply = [Status_SUCCESS]\<rparr>]" and k = 0]
    by simp
  have h2: "\<exists>st \<in> set (reply ?bad). st \<noteq> Status_SUCCESS"
    by simp
  from ackPackets_latches[where p = examplePacket2 and ps = "[examplePacket3]"
        and chClosed = True and ack = ?bad and rs = "[Inl (IOError 3)]" and k = 1] h2
  obtain i where i: "i < length (reply ?bad)" "reply ?bad ! i \<noteq> Status_SUCCESS"
    "ackLoop [examplePacket2, examplePacket3] True [Inr ?bad, Inl (IOError 3)] 1 =
       \<lparr>latched = Some (AckError i (ack_seqno ?bad) (reply ?bad ! i)), unread = [Inl (IOError 3)],
        received = Suc 1 + length [examplePacket3], returned = True\<rparr>"
    by blast
  have "i = 1"
    using i(1,2) by (cases i) auto
  then have r2: "ackLoop [examplePacket2, examplePacket3] True [Inr ?bad, Inl (IOError 3)] 1 =
     \<lparr>latched = Some (AckError 1 2 (Status_OTHER 1)), unread = [Inl (IOError 3)],
      received = 3, returned = True\<rparr>"
    using i(3) by simp
  have h3: "(\<forall>st \<in> set (reply ?hb). st = Status_SUCCESS) \<and> ack_seqno ?hb = - 1"
    by simp
  have r3: "\<And>rest. ackLoop [examplePacket1, examplePacket2, examplePacket3] True (Inr ?hb # rest) 0 =
     ackLoop [examplePacket1, examplePacket2, examplePacket3] True rest 0"
    using ackPackets_latches[where p = examplePacket1 and ps = "[examplePacket2, examplePacket3]"
        and chClosed = True and ack = ?hb and k = 0] h3
    by blast
  have h4: "(\<forall>st \<in> set (reply ?wrong). st = Status_SUCCESS) \<and> ack_seqno ?wrong \<noteq> - 1 \<and>
      ack_seqno ?wrong \<noteq> pkt_seqno examplePacket1"
    by (simp add: examplePacket1_def)
  have r4: "ackLoop [examplePacket1, examplePacket2, examplePacket3] True
       [Inr ?wrong, Inl (IOError 3)] 0 =
     \<lparr>latched = Some ErrInvalidSeqno, unread = [Inl (IOError 3)],
      received = 3, returned = True\<rparr>"
    using ackPackets_latches[where p = examplePacket1 and ps = "[examplePacket2, examplePacket3]"
        and chClosed = True and ack = ?wrong and rs = "[Inl (IOError 3)]" and k = 0] h4
    by simp
  have h5: "(\<forall>st \<in> set (reply ?ok). st = Status_SUCCESS) \<and> ack_seqno ?ok \<noteq> - 1 \<and>
      ack_seqno ?ok = pkt_seqno examplePacket1"
    by (simp add: examplePacket1_def)
  have r5: "ackLoop [examplePacket1, examplePacket2, examplePacket3] True
       [Inr ?ok, Inr ?bad, Inl (IOError 3)] 0 =
     ackLoop [examplePacket2, examplePacket3] True [Inr ?bad, Inl (IOError 3)] 1"
    using ackPackets_latches[where p = examplePacket1 and ps = "[examplePacket2, examplePacket3]"
        and chClosed = True and ack = ?ok and rs = "[Inr ?bad, Inl (IOError 3)]" and k = 0] h5
    by simp
  have r6: "ackPackets [examplePacket1, examplePacket2, examplePacket3] True
       [Inr ?hb, Inr ?ok, Inr ?bad, Inl (IOError 3)] =
     \<lparr>latched = Some (AckError 1 2 (Status_OTHER 1)), unread = [Inl (IOError 3)],
      received = 3, returned = True\<rparr>"
    unfolding ackPackets_def by (simp only: r3 r5 r2)
  have sq: "pkt_seqno examplePacket1 = 1"
    by (simp add: examplePacket1_def)
  show ?thesis
    using r1 r2 r3[of "[Inl (IOError 3)]"] sq r4 r5 r6 by blast
qed

subsection \<open>The frames on the socket\<close>

text \<open>
  A call of \<open>writePacket\<close> that returns no error has encoded the header of the packet
  and appended the frame of the packet to the socket. So while every drain returns no
  error, the socket holds the frames of the packets sent on the channel, in that order,
  with the bytes of the heartbeats in between.
\<close>

lemma sentPackets_append [simp]: "sentPackets (xs @ ys) = sentPackets xs @ sentPackets ys"
  by (induction xs rule: sentPackets.induct) simp_all











subsection \<open>The example stream on the socket, and a run that loses bytes\<close>

text \<open>
  The example stream writes the frames of its three packets. In the other run the first
  write to the socket fails: the second call of \<open>Write\<close> returns the error together
  with the count 2, the packet of 65536 bytes is on the channel and not on the socket,
  and \<open>finish\<close> sends the byte left in the buffer and the last packet and returns no
  error.
\<close>

lemma length_frameHeader [simp]: "length (frameHeader n infoBytes) = 6 + length infoBytes"
  by (simp add: frameHeader_def be_uint32_def be_uint16_def)








lemma lost_frames:
  "packetFrame exampleMarshal lostPacket2 @ packetFrame exampleMarshal lostPacket3 =
   [0, 0, 0, 9, 0, 0] @ be_uint32 (crc32_Checksum [8]) @ [8, 0, 0, 0, 4, 0, 0]"
  by (simp add: packetFrame_def exampleMarshal_def lostPacket2_def lostPacket3_def
      frameHeader_def be_uint32_def be_uint16_def)

subsection \<open>C1: the data of the packets\<close>




subsection \<open>C5: seqnos and the last packet\<close>




end
